theory Spec2Isabelle
  imports Main "HOL-Library.Word"
begin

unbundle bit_operations_syntax

section \<open>Bytes, numbers and errors\<close>

text \<open>
  A Node.js \<open>Buffer\<close> is a list of bytes. Message types, lengths and offsets are
  JavaScript numbers that hold non-negative integers; they are natural numbers here.
  A JavaScript number is an IEEE double: every integer below \<open>2 ^ 53\<close> is one, and
  above, a sum is rounded to 53 significant bits, to nearest with ties to even.
  \<open>round53\<close> is that rounding on a non-negative integer (no number here comes near
  the largest double); \<open>bit_length\<close> counts the binary digits.
\<close>

fun bit_length :: "nat \<Rightarrow> nat" where
  "bit_length n = (if n = 0 then 0 else Suc (bit_length (n div 2)))"

declare bit_length.simps [simp del]

definition round53 :: "nat \<Rightarrow> nat" where
  "round53 x =
     (if x < 2 ^ 53 then x
      else
        let e = bit_length x - 53;
            q = x div 2 ^ e;
            r = x mod 2 ^ e;
            half = 2 ^ (e - 1)
        in (if r > half \<or> (r = half \<and> odd q) then q + 1 else q) * 2 ^ e)"

type_synonym byte = "8 word"
type_synonym Buffer = "byte list"
type_synonym MessageType = nat

text \<open>
  The error classes of \<open>src/types/index.ts\<close> that the modelled code throws, each with its
  message, the \<open>RangeError\<close> of the \<open>varint\<close> package, and \<open>EncodeError\<close> for whatever a
  generated protobuf encoder throws.
\<close>

datatype error =
    ProtocolError string
  | ConnectionError string
  | RangeError string
  | EncodeError string

fun message :: "error \<Rightarrow> string" where
  "message (ProtocolError m) = m"
| "message (ConnectionError m) = m"
| "message (RangeError m) = m"
| "message (EncodeError m) = m"

text \<open>The decimal digits of a non-negative integer.\<close>

definition digit_char :: "nat \<Rightarrow> char" where
  "digit_char d = char_of (48 + d)"

fun string_of_nat :: "nat \<Rightarrow> string" where
  "string_of_nat n =
     (if n < 10 then [digit_char n] else string_of_nat (n div 10) @ [digit_char (n mod 10)])"

declare string_of_nat.simps [simp del]

text \<open>
  \<open>Number::toString\<close>, which a template literal applies to a number, on an integer-valued
  double below \<open>10 ^ 21\<close>: the digits of the integer with the most trailing zeros that
  still rounds to the given double (the shortest digit string that reads back as the
  same number), the closest one if there are two. Below \<open>2 ^ 53\<close> that is the integer
  itself; \<open>2 ^ 55\<close> prints as \<open>36028797018963970\<close>.
\<close>

fun shortest_digits :: "nat \<Rightarrow> nat \<Rightarrow> nat" where
  "shortest_digits m 0 = m"
| "shortest_digits m (Suc j) =
     (let p = 10 ^ Suc j;
          lo = (m div p) * p;
          hi = lo + p;
          okLo = (lo > 0 \<and> round53 lo = m);
          okHi = (round53 hi = m)
      in if okLo \<and> okHi
         then (if m - lo < hi - m then lo
               else if hi - m < m - lo then hi
               else if even (lo div p) then lo else hi)
         else if okLo then lo
         else if okHi then hi
         else shortest_digits m j)"

definition Number_toString :: "nat \<Rightarrow> string" where
  "Number_toString m = string_of_nat (shortest_digits m 21)"

section \<open>The varint package\<close>

text \<open>
  \<open>protocol.ts\<close> imports \<open>varint\<close> from npm; the package is not part of the
  repository, and its two functions are transcribed here from its version 6.0.0.

  \<open>encode(num)\<close> refuses a number above \<open>Number.MAX_SAFE_INTEGER\<close>, then runs two loops:
  while \<open>num >= 2 ^ 31\<close> it emits \<open>(num & 0xFF) | 0x80\<close> and divides by 128; while
  \<open>num & ~0x7F\<close> is not zero it emits the same byte and shifts right by 7; the last byte
  is \<open>num | 0\<close>. On a non-negative integer the bit operations see the integer part, so
  \<open>num /= 128\<close> and \<open>num >>>= 7\<close> are both \<open>num div 128\<close>.
\<close>

definition MAX_SAFE_INTEGER :: nat where
  "MAX_SAFE_INTEGER = 9007199254740991"

definition MSB :: byte where
  "MSB = 0x80"

definition REST :: byte where
  "REST = 0x7F"

definition INT31 :: nat where
  "INT31 = 2 ^ 31"

function encode_low :: "nat \<Rightarrow> Buffer" where
  "encode_low num =
     (if push_bit 7 (drop_bit 7 num) \<noteq> 0
      then ((word_of_nat num AND 0xFF) OR MSB) # encode_low (drop_bit 7 num)
      else [word_of_nat num])"
  by pat_completeness auto
termination
  by (relation "measure id") (auto simp: drop_bit_eq_div push_bit_eq_mult)

declare encode_low.simps [simp del]

function encode_high :: "nat \<Rightarrow> Buffer" where
  "encode_high num =
     (if num \<ge> INT31
      then ((word_of_nat num AND 0xFF) OR MSB) # encode_high (num div 128)
      else encode_low num)"
  by pat_completeness auto
termination
  by (relation "measure id") (auto simp: INT31_def)

declare encode_high.simps [simp del]

definition varint_encode :: "nat \<Rightarrow> error + Buffer" where
  "varint_encode num =
     (if num > MAX_SAFE_INTEGER then Inl (RangeError ''Could not encode varint'')
      else Inr (encode_high num))"

text \<open>
  The source calls the bound of the first loop \<open>INT\<close>; it is \<open>INT31\<close> here.

  \<open>decode(buf, offset)\<close> reads bytes from \<open>offset\<close>, adding \<open>(b & 0x7F) * 2 ^ shift\<close>
  (an exact product) to the result with the addition of doubles, until a byte below
  \<open>0x80\<close>. It throws \<open>RangeError\<close> when it runs past the end of the
  buffer or when \<open>shift\<close> exceeds 49, that is at a ninth byte. The result is the value
  together with \<open>decode.bytes\<close>, the number of bytes read; \<open>None\<close> is the throw.
\<close>

function read_loop :: "Buffer \<Rightarrow> nat \<Rightarrow> nat \<Rightarrow> nat \<Rightarrow> (nat \<times> nat) option" where
  "read_loop buf counter shift res =
     (if counter \<ge> length buf \<or> shift > 49 then None
      else
        let b = buf ! counter;
            res' = round53 (res + unat (b AND REST) * 2 ^ shift)
        in if b \<ge> MSB then read_loop buf (counter + 1) (shift + 7) res'
           else Some (res', counter + 1))"
  by pat_completeness auto
termination
  by (relation "measure (\<lambda>(buf, counter, shift, res). length buf - counter)") auto

declare read_loop.simps [simp del]

definition varint_decode :: "Buffer \<Rightarrow> nat \<Rightarrow> (nat \<times> nat) option" where
  "varint_decode buf offset =
     (case read_loop buf offset 0 0 of
        None \<Rightarrow> None
      | Some (res, counter) \<Rightarrow> Some (res, counter - offset))"

section \<open>The frame codec: \<open>ProtocolHandler\<close>\<close>

record DecodedMessage =
  type :: MessageType
  data :: Buffer

record ProtocolHandler =
  buffer :: Buffer

definition MAX_MESSAGE_SIZE :: nat where
  "MAX_MESSAGE_SIZE = 1024 * 1024"

definition new_ProtocolHandler :: ProtocolHandler where
  "new_ProtocolHandler = \<lparr> buffer = [] \<rparr>"

text \<open>\<open>encodeMessage\<close>: preamble, length varint, type varint, payload.\<close>

definition encodeMessage :: "MessageType \<Rightarrow> Buffer \<Rightarrow> error + Buffer" where
  "encodeMessage ty dat =
     (case varint_encode ty of
        Inl e \<Rightarrow> Inl e
      | Inr typeBytes \<Rightarrow>
          (case varint_encode (length dat) of
             Inl e \<Rightarrow> Inl e
           | Inr lengthBytes \<Rightarrow> Inr ([0x00] @ lengthBytes @ typeBytes @ dat)))"

text \<open>\<open>Buffer.indexOf(value)\<close>: the first index holding the byte, \<open>None\<close> for \<open>-1\<close>.\<close>

fun indexOf :: "Buffer \<Rightarrow> byte \<Rightarrow> nat option" where
  "indexOf [] v = None"
| "indexOf (b # bs) v =
     (if b = v then Some 0 else map_option Suc (indexOf bs v))"

text \<open>\<open>Buffer.slice(start, end)\<close> and \<open>Buffer.slice(start)\<close> for indices within range.\<close>

definition Buffer_slice :: "Buffer \<Rightarrow> nat \<Rightarrow> nat \<Rightarrow> Buffer" where
  "Buffer_slice buf start end = take (end - start) (drop start buf)"

text \<open>
  \<open>tryDecodeMessage\<close> returns a message or \<open>null\<close> (\<open>Inr None\<close>) or throws (\<open>Inl\<close>),
  and in each case leaves the handler with an updated buffer. Both \<open>catch\<close> blocks
  around \<open>varint.decode\<close> return \<open>null\<close> for whatever was thrown.
\<close>

definition tryDecodeMessage ::
  "ProtocolHandler \<Rightarrow> (error + DecodedMessage option) \<times> ProtocolHandler" where
  "tryDecodeMessage this =
     (if length (buffer this) < 2 then (Inr None, this)
      else
        (case (if buffer this ! 0 \<noteq> 0x00
               then (case indexOf (buffer this) 0x00 of
                       None \<Rightarrow> Inl (this\<lparr>buffer := []\<rparr>)
                     | Some preambleIndex \<Rightarrow>
                         Inr (this\<lparr>buffer := drop preambleIndex (buffer this)\<rparr>))
               else Inr this) of
           Inl cleared \<Rightarrow> (Inr None, cleared)
         | Inr this1 \<Rightarrow>
             (case varint_decode (buffer this1) 1 of
                None \<Rightarrow> (Inr None, this1)
              | Some (lengthValue, lengthBytes) \<Rightarrow>
                  if lengthValue > MAX_MESSAGE_SIZE
                  then (Inl (ProtocolError (''Message too large: '' @ Number_toString lengthValue
                              @ '' bytes'')), this1)
                  else
                    let typeOffset = 1 + lengthBytes in
                    if length (buffer this1) \<le> typeOffset then (Inr None, this1)
                    else
                      (case varint_decode (buffer this1) typeOffset of
                         None \<Rightarrow> (Inr None, this1)
                       | Some (typeValue, typeBytes) \<Rightarrow>
                           let dataOffset = typeOffset + typeBytes;
                               totalSize = dataOffset + lengthValue
                           in if length (buffer this1) < totalSize then (Inr None, this1)
                              else
                                let messageData = Buffer_slice (buffer this1) dataOffset totalSize
                                in (Inr (Some \<lparr> type = typeValue, data = messageData \<rparr>),
                                    this1\<lparr>buffer := drop totalSize (buffer this1)\<rparr>)))))"

text \<open>
  \<open>addData\<close> appends the chunk and runs \<open>tryDecodeMessage\<close> while the buffer is not
  empty and a message comes out. A throw leaves the loop at once: the messages
  collected so far are lost with it.
\<close>

function addData_loop ::
  "ProtocolHandler \<Rightarrow> DecodedMessage list \<Rightarrow> (error + DecodedMessage list) \<times> ProtocolHandler" where
  "addData_loop this messages =
     (if length (buffer this) > 0
      then (case tryDecodeMessage this of
              (Inl e, this') \<Rightarrow> (Inl e, this')
            | (Inr None, this') \<Rightarrow> (Inr messages, this')
            | (Inr (Some m), this') \<Rightarrow> addData_loop this' (messages @ [m]))
      else (Inr messages, this))"
  by pat_completeness auto
termination
proof (relation "measure (\<lambda>(this, messages). length (buffer this))", goal_cases)
  case 1
  show ?case by simp
next
  case (2 this messages x1 x2 b x2a)
  then show ?case
    by (auto simp: tryDecodeMessage_def Let_def
             split: if_splits option.splits sum.splits prod.splits)
qed

declare addData_loop.simps [simp del]

definition addData ::
  "ProtocolHandler \<Rightarrow> Buffer \<Rightarrow> (error + DecodedMessage list) \<times> ProtocolHandler" where
  "addData this dat = addData_loop (this\<lparr>buffer := buffer this @ dat\<rparr>) []"

definition clearBuffer :: "ProtocolHandler \<Rightarrow> ProtocolHandler" where
  "clearBuffer this = this\<lparr>buffer := []\<rparr>"

definition getBufferSize :: "ProtocolHandler \<Rightarrow> nat" where
  "getBufferSize this = length (buffer this)"

text \<open>
  Feeding a sequence of chunks, one \<open>addData\<close> call each, as the socket's \<open>data\<close>
  listener does; the messages of the calls are concatenated.
\<close>

fun feed ::
  "ProtocolHandler \<Rightarrow> Buffer list \<Rightarrow> (error + DecodedMessage list) \<times> ProtocolHandler" where
  "feed this [] = (Inr [], this)"
| "feed this (c # cs) =
     (case addData this c of
        (Inl e, this') \<Rightarrow> (Inl e, this')
      | (Inr ms, this') \<Rightarrow>
          (case feed this' cs of
             (Inl e, this'') \<Rightarrow> (Inl e, this'')
           | (Inr ms', this'') \<Rightarrow> (Inr (ms @ ms'), this'')))"

section \<open>Connection state and \<open>JSON.stringify\<close>\<close>

text \<open>
  \<open>ConnectionState\<close> is a JavaScript object: \<open>connected\<close> and \<open>authenticated\<close> are always
  present, \<open>apiVersion\<close> (an object with \<open>major\<close> and \<open>minor\<close>) and \<open>serverInfo\<close> appear
  once they are set. \<open>updateState\<close> compares two states through \<open>JSON.stringify\<close>,
  which lists the keys in insertion order, so the state is the ordered list of its
  keys and values. Keys are unique in an object.

  \<open>major\<close> and \<open>minor\<close> are unsigned 32-bit integers read from a protobuf message; they
  are below \<open>2 ^ 53\<close>, where \<open>JSON.stringify\<close> prints a number as its exact decimal digits
  (\<open>string_of_nat\<close>). Strings are
  lists of 8-bit characters here; a UTF-16 code unit above \<open>0xFF\<close> is outside the model.
\<close>

datatype field =
    FBool bool
  | FStr string
  | FVersion nat nat

type_synonym ConnectionState = "(string \<times> field) list"

definition initial_state :: ConnectionState where
  "initial_state = [(''connected'', FBool False), (''authenticated'', FBool False)]"

definition connected :: "ConnectionState \<Rightarrow> bool" where
  "connected st = (map_of st ''connected'' = Some (FBool True))"

definition authenticated :: "ConnectionState \<Rightarrow> bool" where
  "authenticated st = (map_of st ''authenticated'' = Some (FBool True))"

text \<open>
  Object spread \<open>{ ...a, ...b }\<close>: the keys of \<open>a\<close> in their order, each key of \<open>b\<close>
  overwriting in place or appended at the end.
\<close>

fun set_key :: "ConnectionState \<Rightarrow> string \<Rightarrow> field \<Rightarrow> ConnectionState" where
  "set_key [] k v = [(k, v)]"
| "set_key ((k', v') # st) k v =
     (if k' = k then (k, v) # st else (k', v') # set_key st k v)"

fun spread :: "ConnectionState \<Rightarrow> (string \<times> field) list \<Rightarrow> ConnectionState" where
  "spread a [] = a"
| "spread a ((k, v) # b) = spread (set_key a k v) b"

text \<open>
  \<open>JSON.stringify\<close> on such an object, after ECMAScript's \<open>QuoteJSONString\<close> and
  \<open>SerializeJSONObject\<close>: a string is quoted, with the quote, the backslash and the
  control characters escaped; a boolean is \<open>true\<close> or \<open>false\<close>; an integer is printed
  in decimal; an object is its members in braces, separated by commas.
\<close>

definition dquote :: char where
  "dquote = CHR 0x22"

definition backslash :: char where
  "backslash = CHR 0x5C"

definition hex_digit :: "nat \<Rightarrow> char" where
  "hex_digit d = (if d < 10 then char_of (48 + d) else char_of (87 + d))"

definition json_escape :: "char \<Rightarrow> string" where
  "json_escape c =
     (if c = CHR 0x08 then [backslash, CHR ''b'']
      else if c = CHR 0x09 then [backslash, CHR ''t'']
      else if c = CHR 0x0A then [backslash, CHR ''n'']
      else if c = CHR 0x0C then [backslash, CHR ''f'']
      else if c = CHR 0x0D then [backslash, CHR ''r'']
      else if c = dquote then [backslash, dquote]
      else if c = backslash then [backslash, backslash]
      else if (of_char c :: nat) < 32
        then [backslash, CHR ''u'', CHR ''0'', CHR ''0'',
              hex_digit (of_char c div 16), hex_digit (of_char c mod 16)]
      else [c])"

definition json_quote :: "string \<Rightarrow> string" where
  "json_quote s = dquote # concat (map json_escape s) @ [dquote]"

fun json_field :: "field \<Rightarrow> string" where
  "json_field (FBool b) = (if b then ''true'' else ''false'')"
| "json_field (FStr s) = json_quote s"
| "json_field (FVersion major minor) =
     ''{'' @ json_quote ''major'' @ '':'' @ string_of_nat major @ '','' @
     json_quote ''minor'' @ '':'' @ string_of_nat minor @ ''}''"

definition json_member :: "string \<times> field \<Rightarrow> string" where
  "json_member kv = json_quote (fst kv) @ '':'' @ json_field (snd kv)"

fun json_members :: "(string \<times> field) list \<Rightarrow> string" where
  "json_members [] = []"
| "json_members [kv] = json_member kv"
| "json_members (kv # kv' # rest) = json_member kv @ '','' @ json_members (kv' # rest)"

definition JSON_stringify :: "ConnectionState \<Rightarrow> string" where
  "JSON_stringify st = ''{'' @ json_members st @ ''}''"

section \<open>The connection: \<open>Connection\<close>\<close>

text \<open>
  The message types the connection handles itself, from the \<open>MessageType\<close> enum.
\<close>

definition HelloRequest :: MessageType where "HelloRequest = 1"
definition ConnectRequest :: MessageType where "ConnectRequest = 3"
definition DisconnectRequest :: MessageType where "DisconnectRequest = 5"
definition DisconnectResponse :: MessageType where "DisconnectResponse = 6"
definition PingRequest :: MessageType where "PingRequest = 7"
definition PingResponse :: MessageType where "PingResponse = 8"
definition FanCommandRequest :: MessageType where "FanCommandRequest = 31"
definition SwitchCommandRequest :: MessageType where "SwitchCommandRequest = 33"

text \<open>The events a connection emits, each \<open>emit\<close> call appended to a log.\<close>

datatype ConnectionEvent =
    EvConnect
  | EvDisconnect
  | EvMessage DecodedMessage
  | EvError error
  | EvStateChange ConnectionState

text \<open>
  The fields of the class. \<open>socket\<close> tells whether \<open>this.socket\<close> holds a socket or is
  \<open>null\<close>; \<open>written\<close> is every buffer handed to \<open>socket.write\<close>, in order; a timer field
  tells whether the timer is armed; \<open>reconnect\<close> is \<open>options.reconnect\<close>, which
  \<open>handleDisconnectRequest\<close> may clear; \<open>emitted\<close> is the log of events, whoever
  listens. What the timers do when they fire (the periodic ping, the ping timeout, the
  reconnect attempt) enters the model only as the functions they call.
\<close>

record Connection =
  socket :: bool
  written :: "Buffer list"
  protocol :: ProtocolHandler
  state :: ConnectionState
  reconnect :: bool
  reconnectTimer :: bool
  pingTimer :: bool
  pingTimeoutTimer :: bool
  isReconnecting :: bool
  isDestroyed :: bool
  expectedDisconnect :: bool
  hasDeepSleep :: bool
  emitted :: "ConnectionEvent list"

text \<open>The constructor; \<open>reconnect\<close> is \<open>options.reconnect !== false\<close>.\<close>

definition new_Connection :: "bool \<Rightarrow> Connection" where
  "new_Connection reconnectOption =
     \<lparr> socket = False, written = [], protocol = new_ProtocolHandler,
       state = initial_state, reconnect = reconnectOption, reconnectTimer = False,
       pingTimer = False, pingTimeoutTimer = False, isReconnecting = False,
       isDestroyed = False, expectedDisconnect = False, hasDeepSleep = False,
       emitted = [] \<rparr>"

definition emit :: "Connection \<Rightarrow> ConnectionEvent \<Rightarrow> Connection" where
  "emit this ev = this\<lparr>emitted := emitted this @ [ev]\<rparr>"

definition stopPingTimeoutTimer :: "Connection \<Rightarrow> Connection" where
  "stopPingTimeoutTimer this =
     (if pingTimeoutTimer this then this\<lparr>pingTimeoutTimer := False\<rparr> else this)"

definition stopPingTimer :: "Connection \<Rightarrow> Connection" where
  "stopPingTimer this =
     stopPingTimeoutTimer (if pingTimer this then this\<lparr>pingTimer := False\<rparr> else this)"

definition cleanup :: "Connection \<Rightarrow> Connection" where
  "cleanup this =
     (let this1 = stopPingTimer this;
          this2 = (if reconnectTimer this1 then this1\<lparr>reconnectTimer := False\<rparr> else this1);
          this3 = (if socket this2 then this2\<lparr>socket := False\<rparr> else this2)
      in this3\<lparr>protocol := clearBuffer (protocol this3)\<rparr>)"

definition updateState :: "Connection \<Rightarrow> (string \<times> field) list \<Rightarrow> Connection" where
  "updateState this newState =
     (let oldState = state this;
          this1 = this\<lparr>state := spread (state this) newState\<rparr>
      in if JSON_stringify oldState \<noteq> JSON_stringify (state this1)
         then emit this1 (EvStateChange (state this1))
         else this1)"

definition setAuthenticated :: "Connection \<Rightarrow> bool \<Rightarrow> Connection" where
  "setAuthenticated this a = updateState this [(''authenticated'', FBool a)]"

definition setApiVersion :: "Connection \<Rightarrow> nat \<Rightarrow> nat \<Rightarrow> Connection" where
  "setApiVersion this major minor = updateState this [(''apiVersion'', FVersion major minor)]"

definition setServerInfo :: "Connection \<Rightarrow> string \<Rightarrow> Connection" where
  "setServerInfo this info = updateState this [(''serverInfo'', FStr info)]"

text \<open>\<open>sendMessage\<close> throws \<open>ConnectionError('Not connected')\<close> or writes the frame.\<close>

definition sendMessage :: "Connection \<Rightarrow> MessageType \<Rightarrow> Buffer \<Rightarrow> error + Connection" where
  "sendMessage this ty dat =
     (if \<not> socket this \<or> \<not> connected (state this)
      then Inl (ConnectionError ''Not connected'')
      else (case encodeMessage ty dat of
              Inl e \<Rightarrow> Inl e
            | Inr frame \<Rightarrow> Inr (this\<lparr>written := written this @ [frame]\<rparr>)))"

definition disconnect :: "Connection \<Rightarrow> Connection" where
  "disconnect this =
     (let this1 = cleanup this;
          this2 = updateState this1 [(''connected'', FBool False), (''authenticated'', FBool False)];
          this3 = emit this2 EvDisconnect
      in this3\<lparr>expectedDisconnect := False\<rparr>)"

definition scheduleReconnect :: "Connection \<Rightarrow> Connection" where
  "scheduleReconnect this =
     (if isReconnecting this \<or> isDestroyed this then this
      else this\<lparr>isReconnecting := True, reconnectTimer := True\<rparr>)"

definition handleDisconnect :: "Connection \<Rightarrow> Connection" where
  "handleDisconnect this =
     (let wasConnected = connected (state this);
          this1 = cleanup this;
          this2 = updateState this1 [(''connected'', FBool False), (''authenticated'', FBool False)];
          this3 = (if wasConnected then emit this2 EvDisconnect else this2)
      in if reconnect this3 \<and> \<not> isDestroyed this3 \<and> \<not> isReconnecting this3
         then scheduleReconnect this3 else this3)"

definition handleDisconnectRequest :: "Connection \<Rightarrow> Connection" where
  "handleDisconnectRequest this =
     (let this1 = (case sendMessage this DisconnectResponse [] of
                     Inl e \<Rightarrow> this
                   | Inr sent \<Rightarrow> sent);
          this2 = this1\<lparr>expectedDisconnect := True\<rparr>;
          this3 = stopPingTimeoutTimer (stopPingTimer this2);
          this4 = (if hasDeepSleep this3 then this3\<lparr>reconnect := False\<rparr> else this3)
      in disconnect this4)"

definition handlePongResponse :: "Connection \<Rightarrow> Connection" where
  "handlePongResponse this = stopPingTimeoutTimer this"

definition handleMessage :: "Connection \<Rightarrow> DecodedMessage \<Rightarrow> error + Connection" where
  "handleMessage this msg =
     (if type msg = PingRequest then sendMessage this PingResponse []
      else if type msg = PingResponse then Inr (handlePongResponse this)
      else if type msg = DisconnectRequest then Inr (handleDisconnectRequest this)
      else Inr (emit this (EvMessage msg)))"

text \<open>
  The socket's \<open>data\<close> listener: decode, handle each message in order, and on any
  throw emit \<open>error\<close> with a \<open>ProtocolError\<close> of the same message, then \<open>disconnect\<close>.
  \<open>handleMessages\<close> is the \<open>for\<close> loop; it stops at the first throw and returns the
  connection as it is then. The listener is attached while the connection holds a
  socket.
\<close>

fun handleMessages :: "Connection \<Rightarrow> DecodedMessage list \<Rightarrow> error option \<times> Connection" where
  "handleMessages this [] = (None, this)"
| "handleMessages this (m # ms) =
     (case handleMessage this m of
        Inl e \<Rightarrow> (Some e, this)
      | Inr this' \<Rightarrow> handleMessages this' ms)"

definition on_error_caught :: "Connection \<Rightarrow> error \<Rightarrow> Connection" where
  "on_error_caught this err = disconnect (emit this (EvError (ProtocolError (message err))))"

definition on_data :: "Connection \<Rightarrow> Buffer \<Rightarrow> Connection" where
  "on_data this dat =
     (case addData (protocol this) dat of
        (Inl err, p) \<Rightarrow> on_error_caught (this\<lparr>protocol := p\<rparr>) err
      | (Inr messages, p) \<Rightarrow>
          (case handleMessages (this\<lparr>protocol := p\<rparr>) messages of
             (Some err, this') \<Rightarrow> on_error_caught this' err
           | (None, this') \<Rightarrow> this'))"

subsection \<open>Connecting\<close>

text \<open>
  \<open>establishConnection\<close> creates a socket and waits for its \<open>connect\<close> event, its \<open>error\<close>
  event or the connect timeout; what the network does is the parameter \<open>tcp\<close>.
\<close>

datatype tcp_outcome =
    TcpConnect
  | TcpError string
  | TcpTimeout

definition startPingTimer :: "Connection \<Rightarrow> Connection" where
  "startPingTimer this =
     (if hasDeepSleep this then this
      else (stopPingTimer this)\<lparr>pingTimer := True\<rparr>)"

definition establishConnection :: "Connection \<Rightarrow> tcp_outcome \<Rightarrow> error option \<times> Connection" where
  "establishConnection this tcp =
     (let this1 = cleanup this in
      case tcp of
        TcpConnect \<Rightarrow>
          (let this2 = this1\<lparr>socket := True\<rparr>;
               this3 = updateState this2 [(''connected'', FBool True), (''authenticated'', FBool False)];
               this4 = startPingTimer this3
           in (None, emit this4 EvConnect))
      | TcpError msg \<Rightarrow> (Some (ConnectionError (''Socket error: '' @ msg)), this1)
      | TcpTimeout \<Rightarrow> (Some (ConnectionError ''Connection timeout''), this1))"

text \<open>
  \<open>connect\<close> hands \<open>establishConnection\<close> to \<open>pRetry\<close> of the npm package \<open>p-retry\<close>, which
  is not part of the repository. As the package documents it: the function is run
  once, and run again after each failure while retries are left, \<open>retries\<close> being the
  number of retries after the first attempt; before retry number \<open>i\<close> (from 0) it waits
  \<open>min (minTimeout * factor ^ i) maxTimeout\<close> milliseconds, with \<open>factor = 2\<close> and no
  randomisation by default. The model runs the attempts one after the other, with
  nothing else happening in between; it returns the outcome, the number of attempts
  made and the waits in milliseconds.
\<close>

definition retry_timeout :: "nat \<Rightarrow> nat \<Rightarrow> nat \<Rightarrow> nat" where
  "retry_timeout minTimeout maxTimeout i = min (minTimeout * 2 ^ i) maxTimeout"

fun pRetry ::
  "(nat \<Rightarrow> 's \<Rightarrow> error option \<times> 's) \<Rightarrow> nat \<Rightarrow> nat \<Rightarrow> nat \<Rightarrow> nat \<Rightarrow> 's
     \<Rightarrow> (error option \<times> 's) \<times> nat \<times> nat list" where
  "pRetry input 0 minTimeout maxTimeout attemptNumber s =
     (input attemptNumber s, attemptNumber, [])"
| "pRetry input (Suc retries) minTimeout maxTimeout attemptNumber s =
     (case input attemptNumber s of
        (None, s') \<Rightarrow> ((None, s'), attemptNumber, [])
      | (Some e, s') \<Rightarrow>
          (case pRetry input retries minTimeout maxTimeout (Suc attemptNumber) s' of
             (res, attempts, waits) \<Rightarrow>
               (res, attempts, retry_timeout minTimeout maxTimeout (attemptNumber - 1) # waits)))"

text \<open>
  \<open>connect\<close>: \<open>env n\<close> is what the network does at attempt \<open>n\<close> (from 1). The result is
  the error \<open>connect\<close> rejects with, if any, the connection afterwards, the number of
  calls of \<open>establishConnection\<close> and the waits between them.
\<close>

definition connect ::
  "Connection \<Rightarrow> (nat \<Rightarrow> tcp_outcome) \<Rightarrow> (error option \<times> Connection) \<times> nat \<times> nat list" where
  "connect this env =
     (if isDestroyed this
      then ((Some (ConnectionError ''Connection has been destroyed''), this), 0, [])
      else if connected (state this) then ((None, this), 0, [])
      else
        (case pRetry (\<lambda>n s. establishConnection s (env n))
                (if reconnect this then 3 else 0) 1000 5000 1 this of
           ((None, this'), attempts, waits) \<Rightarrow> ((None, this'), attempts, waits)
         | ((Some err, this'), attempts, waits) \<Rightarrow>
             ((Some (ConnectionError (''Failed to connect: '' @ message err)), this'),
              attempts, waits)))"

text \<open>The parts of that result.\<close>

abbreviation rejection :: "(error option \<times> 's) \<times> nat \<times> nat list \<Rightarrow> error option" where
  "rejection r \<equiv> fst (fst r)"

abbreviation attempts :: "(error option \<times> 's) \<times> nat \<times> nat list \<Rightarrow> nat" where
  "attempts r \<equiv> fst (snd r)"

abbreviation waits :: "(error option \<times> 's) \<times> nat \<times> nat list \<Rightarrow> nat list" where
  "waits r \<equiv> snd (snd r)"

definition setDeepSleepMode :: "Connection \<Rightarrow> bool \<Rightarrow> Connection" where
  "setDeepSleepMode this enabled =
     (let this1 = this\<lparr>hasDeepSleep := enabled\<rparr>
      in if enabled \<and> connected (state this1) then stopPingTimer this1 else this1)"

definition destroy :: "Connection \<Rightarrow> Connection" where
  "destroy this = cleanup (this\<lparr>isDestroyed := True\<rparr>)"

section \<open>The client: \<open>ESPHomeClient\<close>\<close>

text \<open>
  \<open>ESPHomeClient.encodeMessage\<close> loads the generated module \<open>../proto/api\<close>, which is not
  among the sources, and looks the message class up by name. The module is a
  parameter: loading it may throw; a name may have no class, or a class without
  \<open>encode\<close> (\<open>None\<close>); \<open>create\<close>, \<open>encode\<close> and \<open>finish\<close> together map the message object
  to bytes or throw. Everything is inside one \<open>try\<close>, whose \<open>catch\<close> returns an empty
  buffer. The result type keeps a place for a throw, which the function never uses.
\<close>

datatype jsvalue =
    JSBool bool
  | JSNum nat

type_synonym message_object = "(string \<times> jsvalue) list"
type_synonym MessageClass = "message_object \<Rightarrow> error + Buffer"
type_synonym proto_api = "error + (string \<Rightarrow> MessageClass option)"

definition ESPHomeClient_encodeMessage ::
  "proto_api \<Rightarrow> string \<Rightarrow> message_object \<Rightarrow> error + Buffer" where
  "ESPHomeClient_encodeMessage api ty dat =
     (case (case api of
              Inl e \<Rightarrow> Inl e
            | Inr table \<Rightarrow>
                (case table ty of
                   None \<Rightarrow> Inr []
                 | Some MessageClass \<Rightarrow> MessageClass dat)) of
        Inl error \<Rightarrow> Inr []
      | Inr encoded \<Rightarrow> Inr encoded)"

text \<open>
  The commands, on a client that holds a plain \<open>Connection\<close>. They are \<open>async\<close>: a throw
  is a rejected promise, \<open>Inl\<close> here.
\<close>

definition switchCommand ::
  "proto_api \<Rightarrow> Connection \<Rightarrow> nat \<Rightarrow> bool \<Rightarrow> error + Connection" where
  "switchCommand api connection key st =
     (let msg = [(''key'', JSNum key), (''state'', JSBool st)] in
      case ESPHomeClient_encodeMessage api ''SwitchCommandRequest'' msg of
        Inl e \<Rightarrow> Inl e
      | Inr dat \<Rightarrow> sendMessage connection SwitchCommandRequest dat)"

record FanOptions =
  fan_state :: "bool option"
  fan_speed :: "nat option"
  fan_speedLevel :: "nat option"
  fan_oscillating :: "bool option"

definition fanCommand ::
  "proto_api \<Rightarrow> Connection \<Rightarrow> nat \<Rightarrow> FanOptions \<Rightarrow> error + Connection" where
  "fanCommand api connection key options =
     (let msg0 = [(''key'', JSNum key)];
          msg1 = (case fan_state options of
                    None \<Rightarrow> msg0
                  | Some v \<Rightarrow> msg0 @ [(''state'', JSBool v), (''has_state'', JSBool True)]);
          msg2 = (case fan_speed options of
                    None \<Rightarrow> msg1
                  | Some v \<Rightarrow> msg1 @ [(''speed'', JSNum v), (''has_speed'', JSBool True)]);
          msg3 = (case fan_speedLevel options of
                    None \<Rightarrow> msg2
                  | Some v \<Rightarrow> msg2 @ [(''speed_level'', JSNum v), (''has_speed_level'', JSBool True)]);
          msg4 = (case fan_oscillating options of
                    None \<Rightarrow> msg3
                  | Some v \<Rightarrow> msg3 @ [(''oscillating'', JSBool v), (''has_oscillating'', JSBool True)])
      in case ESPHomeClient_encodeMessage api ''FanCommandRequest'' msg4 of
           Inl e \<Rightarrow> Inl e
         | Inr dat \<Rightarrow> sendMessage connection FanCommandRequest dat)"

section \<open>Notation for the proofs\<close>

text \<open>
  The bytes \<open>encodeMessage\<close> produces for a message, and the messages whose type
  \<open>encode\<close> accepts and whose payload is within the size limit.
\<close>

abbreviation frame_of :: "DecodedMessage \<Rightarrow> Buffer" where
  "frame_of m \<equiv> 0 # encode_low (length (data m)) @ encode_low (type m) @ data m"

abbreviation wellformed :: "DecodedMessage \<Rightarrow> bool" where
  "wellformed m \<equiv> type m \<le> MAX_SAFE_INTEGER \<and> length (data m) \<le> MAX_MESSAGE_SIZE"

text \<open>The decimal digits, for the lemmas on printed numbers.\<close>

abbreviation is_digit :: "char \<Rightarrow> bool" where
  "is_digit c \<equiv> 48 \<le> (of_char c :: nat) \<and> (of_char c :: nat) < 58"

section \<open>Lemmas on bytes and varints\<close>

lemma round53_exact: "x < 2 ^ 53 \<Longrightarrow> round53 x = x"
  by (simp add: round53_def)

lemma safe_bounds: "n \<le> MAX_SAFE_INTEGER \<Longrightarrow> n < 2 ^ 53 \<and> n < 128 ^ 8"
  by (simp add: MAX_SAFE_INTEGER_def)

lemma max_size_safe: "n \<le> MAX_MESSAGE_SIZE \<Longrightarrow> n \<le> MAX_SAFE_INTEGER"
  by (simp add: MAX_SAFE_INTEGER_def MAX_MESSAGE_SIZE_def)

lemma and_FF: "(x :: byte) AND 0xFF = x"
proof -
  have "(0xFF :: byte) = - 1" by simp
  then show ?thesis by (metis and.right_neutral)
qed

lemma cont_byte_ge: "((word_of_nat n AND 0xFF) OR MSB :: byte) \<ge> MSB"
  by (metis le_word_or2 or.commute)

lemma and_REST: "(w :: byte) AND REST = take_bit 7 w"
  by (simp add: REST_def take_bit_eq_mask mask_eq_exp_minus_1)

lemma cont_byte_val: "unat (((word_of_nat n AND 0xFF) OR MSB :: byte) AND REST) = n mod 128"
proof -
  have "take_bit 7 (MSB :: byte) = 0" by (simp add: MSB_def)
  then have "take_bit 7 ((word_of_nat n) OR MSB :: byte) = take_bit 7 (word_of_nat n :: byte)"
    by (simp add: take_bit_or)
  then have "unat (((word_of_nat n AND 0xFF) OR MSB :: byte) AND REST) = take_bit 7 (unat (word_of_nat n :: byte))"
    by (simp add: and_FF and_REST unsigned_take_bit_eq)
  also have "\<dots> = n mod 128"
    by (simp add: unat_of_nat take_bit_eq_mod mod_mod_cancel)
  finally show ?thesis .
qed

lemma last_byte_lt: "n < 128 \<Longrightarrow> \<not> ((word_of_nat n :: byte) \<ge> MSB)"
  by (simp add: word_le_nat_alt unat_of_nat MSB_def)

lemma last_byte_val: "n < 128 \<Longrightarrow> unat ((word_of_nat n :: byte) AND REST) = n"
proof -
  assume n: "n < 128"
  have "unat ((word_of_nat n :: byte) AND REST) = take_bit 7 (unat (word_of_nat n :: byte))"
    by (simp add: and_REST unsigned_take_bit_eq)
  also have "\<dots> = n" using n
    by (simp add: unat_of_nat take_bit_eq_mod)
  finally show ?thesis .
qed

lemma low_cond: "push_bit 7 (drop_bit 7 (num::nat)) \<noteq> 0 \<longleftrightarrow> num \<ge> 128"
  by (auto simp: push_bit_eq_mult drop_bit_eq_div)

lemma encode_low_small:
  assumes "n < 128"
  shows "encode_low n = [word_of_nat n]"
proof -
  have c: "\<not> push_bit 7 (drop_bit 7 n) \<noteq> 0" using assms by (simp only: low_cond)
  show ?thesis by (subst encode_low.simps) (simp only: c if_False)
qed

lemma encode_low_big:
  assumes "n \<ge> 128"
  shows "encode_low n = ((word_of_nat n AND 0xFF) OR MSB) # encode_low (n div 128)"
proof -
  have c: "push_bit 7 (drop_bit 7 n) \<noteq> 0" using assms by (simp only: low_cond)
  have d: "drop_bit 7 n = n div 128" by (simp add: drop_bit_eq_div)
  show ?thesis by (subst encode_low.simps, subst if_P[OF c], simp only: d)
qed

lemma encode_high_low: "encode_high n = encode_low n"
proof (induction n rule: encode_high.induct)
  case (1 num)
  show ?case
  proof (cases "num \<ge> INT31")
    case True
    then have "num \<ge> 128" by (simp add: INT31_def)
    with True 1 show ?thesis
      by (subst encode_high.simps) (simp add: encode_low_big)
  next
    case False
    then show ?thesis by (subst encode_high.simps) simp
  qed
qed

lemma encode_low_nonempty: "encode_low n \<noteq> []"
  by (cases "n < 128") (simp_all add: encode_low_small encode_low_big)

lemma encode_low_length: "n < 128 ^ k \<Longrightarrow> k \<ge> 1 \<Longrightarrow> length (encode_low n) \<le> k"
proof (induction k arbitrary: n)
  case 0
  then show ?case by simp
next
  case (Suc k)
  show ?case
  proof (cases "n < 128")
    case True
    then show ?thesis by (simp add: encode_low_small)
  next
    case False
    then have k: "k \<ge> 1" using Suc.prems by (cases k) auto
    have "n div 128 < 128 ^ k" using Suc.prems
      by (simp add: less_mult_imp_div_less mult.commute)
    from Suc.IH[OF this k] False show ?thesis by (simp add: encode_low_big)
  qed
qed

lemma read_loop_encode:
  "shift + 7 * (length (encode_low n) - 1) \<le> 49 \<Longrightarrow> res + n * 2 ^ shift < 2 ^ 53 \<Longrightarrow>
   read_loop (pre @ encode_low n @ rest) (length pre) shift res
     = Some (res + n * 2 ^ shift, length pre + length (encode_low n))"
proof (induction n arbitrary: pre shift res rule: encode_low.induct)
  case (1 num)
  show ?case
  proof (cases "num < 128")
    case True
    then show ?thesis using "1.prems"
      by (subst read_loop.simps)
         (simp add: encode_low_small last_byte_lt last_byte_val Let_def round53_exact)
  next
    case False
    then have big: "num \<ge> 128" by simp
    let ?b = "(word_of_nat num AND 0xFF) OR MSB :: byte"
    have e: "encode_low num = ?b # encode_low (num div 128)" using big by (rule encode_low_big)
    have sh: "shift + 7 + 7 * (length (encode_low (num div 128)) - 1) \<le> 49"
      using "1.prems" e encode_low_nonempty[of "num div 128"]
      by (cases "encode_low (num div 128)") auto
    have v: "(num mod 128) * 2 ^ shift + (num div 128) * 2 ^ (shift + 7) = num * 2 ^ shift"
    proof -
      have "(num div 128) * 2 ^ (shift + 7) = (num div 128 * 128) * 2 ^ shift"
        by (simp add: power_add)
      then have "(num mod 128) * 2 ^ shift + (num div 128) * 2 ^ (shift + 7) = (num mod 128 + num div 128 * 128) * 2 ^ shift"
        by (simp only: add_mult_distrib)
      then show ?thesis by simp
    qed
    have bound: "res + (num mod 128) * 2 ^ shift + (num div 128) * 2 ^ (shift + 7) < 2 ^ 53"
      using "1.prems"(2) v by (simp add: add.assoc)
    then have step: "res + (num mod 128) * 2 ^ shift < 2 ^ 53" by simp
    have IH: "read_loop ((pre @ [?b]) @ encode_low (num div 128) @ rest) (length (pre @ [?b])) (shift + 7) (res + (num mod 128) * 2 ^ shift)
        = Some (res + (num mod 128) * 2 ^ shift + (num div 128) * 2 ^ (shift + 7), length (pre @ [?b]) + length (encode_low (num div 128)))"
    proof -
      have c: "push_bit 7 (drop_bit 7 num) \<noteq> 0" using big by (simp only: low_cond)
      have d: "drop_bit 7 num = num div 128" by (simp add: drop_bit_eq_div)
      show ?thesis using "1.IH"[OF c, unfolded d, OF sh bound] .
    qed
    have sh49: "\<not> shift > 49" using sh by simp
    show ?thesis
      apply (subst read_loop.simps)
      using IH v sh49 step
      by (simp add: e cont_byte_ge cont_byte_val Let_def nth_append add.assoc round53_exact)
  qed
qed

lemma read_loop_truncated:
  "k < length (encode_low n) \<Longrightarrow>
   read_loop (pre @ take k (encode_low n)) (length pre) shift res = None"
proof (induction n arbitrary: pre shift res k rule: encode_low.induct)
  case (1 num)
  show ?case
  proof (cases k)
    case 0
    then show ?thesis by (subst read_loop.simps) simp
  next
    case (Suc k')
    then have big: "num \<ge> 128" using "1.prems"
      by (cases "num < 128") (simp_all add: encode_low_small)
    let ?b = "(word_of_nat num AND 0xFF) OR MSB :: byte"
    have e: "encode_low num = ?b # encode_low (num div 128)" using big by (rule encode_low_big)
    have k': "k' < length (encode_low (num div 128))" using "1.prems" Suc e by simp
    have IH: "read_loop ((pre @ [?b]) @ take k' (encode_low (num div 128))) (length (pre @ [?b])) (shift + 7) (round53 (res + (num mod 128) * 2 ^ shift)) = None"
    proof -
      have c: "push_bit 7 (drop_bit 7 num) \<noteq> 0" using big by (simp only: low_cond)
      have d: "drop_bit 7 num = num div 128" by (simp add: drop_bit_eq_div)
      show ?thesis using "1.IH"[OF c, unfolded d, OF k'] .
    qed
    show ?thesis
      apply (subst read_loop.simps)
      using IH by (simp add: e Suc cont_byte_ge cont_byte_val Let_def nth_append)
  qed
qed


lemma varint_decode_encode:
  assumes "n \<le> MAX_SAFE_INTEGER"
  shows "varint_decode (pre @ encode_low n @ rest) (length pre) = Some (n, length (encode_low n))"
proof -
  have n: "n < 2 ^ 53" "n < 128 ^ 8" using safe_bounds[OF assms] by simp_all
  have "length (encode_low n) \<le> 8" using n(2) by (rule encode_low_length) simp
  then have sh: "0 + 7 * (length (encode_low n) - 1) \<le> 49" by simp
  have "0 + n * 2 ^ 0 < (2 :: nat) ^ 53" using n(1) by simp
  from read_loop_encode[OF sh this, of pre rest] show ?thesis
    by (simp add: varint_decode_def)
qed

lemma varint_decode_truncated:
  "k < length (encode_low n) \<Longrightarrow> varint_decode (pre @ take k (encode_low n)) (length pre) = None"
  by (simp add: varint_decode_def read_loop_truncated)

lemma tryDecode_frame:
  assumes T: "T \<le> MAX_SAFE_INTEGER" and L: "length d \<le> MAX_MESSAGE_SIZE"
  shows "tryDecodeMessage \<lparr>buffer = 0 # encode_low (length d) @ encode_low T @ d @ rest\<rparr>
         = (Inr (Some \<lparr>type = T, data = d\<rparr>), \<lparr>buffer = rest\<rparr>)"
proof -
  let ?EL = "encode_low (length d)" and ?ET = "encode_low T"
  let ?buf = "0 # ?EL @ ?ET @ d @ rest"
  have L8: "length d \<le> MAX_SAFE_INTEGER" using L by (rule max_size_safe)
  have d1: "varint_decode ?buf (Suc 0) = Some (length d, length ?EL)"
    using varint_decode_encode[OF L8, of "[0]" "?ET @ d @ rest"] by simp
  have d2: "varint_decode ?buf (Suc (length ?EL)) = Some (T, length ?ET)"
    using varint_decode_encode[OF T, of "0 # ?EL" "d @ rest"] by simp
  have ne: "?ET \<noteq> []" by (rule encode_low_nonempty)
  show ?thesis
    using L ne by (simp add: tryDecodeMessage_def d1 d2 Let_def Buffer_slice_def)
qed


lemma tryDecode_prefix:
  assumes T: "T \<le> MAX_SAFE_INTEGER" and L: "length d \<le> MAX_MESSAGE_SIZE"
    and k: "k < length (0 # encode_low (length d) @ encode_low T @ d)"
  shows "tryDecodeMessage \<lparr>buffer = take k (0 # encode_low (length d) @ encode_low T @ d)\<rparr>
         = (Inr None, \<lparr>buffer = take k (0 # encode_low (length d) @ encode_low T @ d)\<rparr>)"
proof -
  let ?EL = "encode_low (length d)" and ?ET = "encode_low T"
  have L8: "length d \<le> MAX_SAFE_INTEGER" using L by (rule max_size_safe)
  have neL: "?EL \<noteq> []" and neT: "?ET \<noteq> []" by (rule encode_low_nonempty)+
  consider (short) "k < 2"
    | (inlen) "k \<ge> 2" "k - 1 < length ?EL"
    | (attype) "k - 1 = length ?EL"
    | (intype) "k - 1 > length ?EL" "k - 1 - length ?EL < length ?ET"
    | (indata) "k - 1 - length ?EL \<ge> length ?ET" by linarith
  then show ?thesis
  proof cases
    case short
    then show ?thesis using k by (simp add: tryDecodeMessage_def)
  next
    case inlen
    then obtain k' where k': "k = Suc k'" "k' < length ?EL" "k' \<ge> 1" by (cases k) auto
    have tk: "take k (0 # ?EL @ ?ET @ d) = 0 # take k' ?EL" using k' by simp
    have "varint_decode (0 # take k' ?EL) (Suc 0) = None"
      using varint_decode_truncated[OF k'(2), of "[0]"] by simp
    then show ?thesis using k' unfolding tk by (simp add: tryDecodeMessage_def)
  next
    case attype
    then have tk: "take k (0 # ?EL @ ?ET @ d) = 0 # ?EL" using neL by (cases k) auto
    have d1: "varint_decode (0 # ?EL) (Suc 0) = Some (length d, length ?EL)"
      using varint_decode_encode[OF L8, of "[0]" "[]"] by simp
    have "length ?EL \<ge> 1" using neL by (cases ?EL) auto
    then show ?thesis unfolding tk using L
      by (simp add: tryDecodeMessage_def d1)
  next
    case intype
    define j where "j = k - 1 - length ?EL"
    have j: "j < length ?ET" "j > 0" "k = Suc (length ?EL + j)" using intype by (auto simp: j_def)
    have tk: "take k (0 # ?EL @ ?ET @ d) = 0 # ?EL @ take j ?ET" using j by simp
    have d1: "varint_decode (0 # ?EL @ take j ?ET) (Suc 0) = Some (length d, length ?EL)"
      using varint_decode_encode[OF L8, of "[0]" "take j ?ET"] by simp
    have d2: "varint_decode (0 # ?EL @ take j ?ET) (Suc (length ?EL)) = None"
      using varint_decode_truncated[OF j(1), of "0 # ?EL"] by simp
    show ?thesis unfolding tk using L j
      by (simp add: tryDecodeMessage_def d1 d2 Let_def)
  next
    case indata
    define i where "i = k - 1 - length ?EL - length ?ET"
    have "length ?ET \<ge> 1" using neT by (cases ?ET) auto
    then have i: "i < length d" "k = Suc (length ?EL + length ?ET + i)"
      using indata k unfolding i_def by simp_all
    have tk: "take k (0 # ?EL @ ?ET @ d) = 0 # ?EL @ ?ET @ take i d" using i by simp
    have d1: "varint_decode (0 # ?EL @ ?ET @ take i d) (Suc 0) = Some (length d, length ?EL)"
      using varint_decode_encode[OF L8, of "[0]" "?ET @ take i d"] by simp
    have d2: "varint_decode (0 # ?EL @ ?ET @ take i d) (Suc (length ?EL)) = Some (T, length ?ET)"
      using varint_decode_encode[OF T, of "0 # ?EL" "take i d"] by simp
    show ?thesis unfolding tk using L i neT
      by (simp add: tryDecodeMessage_def d1 d2 Let_def)
  qed
qed


lemma addData_loop_frames:
  assumes "\<forall>m\<in>set ms. wellformed m"
    and "p = [] \<or> (\<exists>m k. wellformed m \<and> k < length (frame_of m) \<and> p = take k (frame_of m))"
  shows "addData_loop \<lparr>buffer = concat (map frame_of ms) @ p\<rparr> acc
         = (Inr (acc @ ms), \<lparr>buffer = p\<rparr>)"
  using assms(1)
proof (induction ms arbitrary: acc)
  case Nil
  show ?case
  proof (cases "p = []")
    case True
    then show ?thesis by (subst addData_loop.simps) simp
  next
    case False
    with assms(2) obtain m k where mk: "wellformed m" "k < length (frame_of m)" "p = take k (frame_of m)"
      by blast
    have "tryDecodeMessage \<lparr>buffer = p\<rparr> = (Inr None, \<lparr>buffer = p\<rparr>)"
      unfolding mk(3) using mk(1,2) by (intro tryDecode_prefix) auto
    then show ?thesis by (subst addData_loop.simps) simp
  qed
next
  case (Cons m ms)
  have wf: "wellformed m" using Cons.prems by simp
  have meq: "\<lparr>type = type m, data = data m\<rparr> = m" by simp
  have "tryDecodeMessage \<lparr>buffer = frame_of m @ concat (map frame_of ms) @ p\<rparr>
        = (Inr (Some m), \<lparr>buffer = concat (map frame_of ms) @ p\<rparr>)"
    using tryDecode_frame[of "type m" "data m" "concat (map frame_of ms) @ p"] wf
    unfolding meq by simp
  moreover have "addData_loop \<lparr>buffer = concat (map frame_of ms) @ p\<rparr> (acc @ [m])
        = (Inr ((acc @ [m]) @ ms), \<lparr>buffer = p\<rparr>)"
    using Cons.IH[of "acc @ [m]"] Cons.prems by simp
  ultimately show ?case
    by (subst addData_loop.simps) simp
qed

lemma prefix_short:
  assumes "x @ y = f @ r" and "length x < length f"
  shows "x = take (length x) f"
proof -
  have "take (length x) (x @ y) = take (length x) (f @ r)" using assms(1) by simp
  then show ?thesis using assms(2) by simp
qed

lemma prefix_long:
  assumes "x @ y = f @ r" and "\<not> length x < length f"
  shows "x = f @ drop (length f) x"
proof -
  have "take (length f) (x @ y) = take (length f) (f @ r)" using assms(1) by simp
  then have "take (length f) x = f" using assms(2) by simp
  then show ?thesis by (metis append_take_drop_id)
qed

lemma prefix_split:
  "x @ y = concat (map frame_of ms) \<Longrightarrow>
   \<exists>j q. j \<le> length ms \<and> x = concat (map frame_of (take j ms)) @ q
        \<and> q @ y = concat (map frame_of (drop j ms))
        \<and> (q = [] \<or> (j < length ms \<and> (\<exists>k < length (frame_of (ms ! j)). q = take k (frame_of (ms ! j)))))"
proof (induction ms arbitrary: x)
  case Nil
  then show ?case by simp
next
  case (Cons m ms)
  show ?case
  proof (cases "length x < length (frame_of m)")
    case True
    have "x @ y = frame_of m @ concat (map frame_of ms)" using Cons.prems by simp
    from prefix_short[OF this True] have x: "x = take (length x) (frame_of m)" .
    show ?thesis
      apply (rule exI[of _ 0], rule exI[of _ x])
      using Cons.prems True x by auto
  next
    case False
    define x' where "x' = drop (length (frame_of m)) x"
    have "x @ y = frame_of m @ concat (map frame_of ms)" using Cons.prems by simp
    from prefix_long[OF this False] have x: "x = frame_of m @ x'" unfolding x'_def .
    then have "x' @ y = concat (map frame_of ms)" using Cons.prems by simp
    from Cons.IH[OF this] obtain j q where jq: "j \<le> length ms" "x' = concat (map frame_of (take j ms)) @ q"
      "q @ y = concat (map frame_of (drop j ms))"
      "q = [] \<or> (j < length ms \<and> (\<exists>k < length (frame_of (ms ! j)). q = take k (frame_of (ms ! j))))"
      by blast
    show ?thesis
      apply (rule exI[of _ "Suc j"], rule exI[of _ q])
      using jq x by auto
  qed
qed

lemma feed_frames:
  assumes "\<forall>m\<in>set ms. wellformed m"
    and "p = [] \<or> (ms \<noteq> [] \<and> (\<exists>k < length (frame_of (hd ms)). p = take k (frame_of (hd ms))))"
    and "p @ concat chunks = concat (map frame_of ms)"
  shows "feed \<lparr>buffer = p\<rparr> chunks = (Inr ms, \<lparr>buffer = []\<rparr>)"
  using assms
proof (induction chunks arbitrary: p ms)
  case Nil
  have "p = []"
  proof (rule ccontr)
    assume "p \<noteq> []"
    with Nil.prems(2) obtain k where k: "ms \<noteq> []" "k < length (frame_of (hd ms))" "p = take k (frame_of (hd ms))"
      by blast
    then have "length p = k" by simp
    moreover have "length p \<ge> length (frame_of (hd ms))" using Nil.prems(3) k(1)
      by (cases ms) auto
    ultimately show False using k(2) by simp
  qed
  then have "ms = []" using Nil.prems(3) by (cases ms) auto
  with \<open>p = []\<close> show ?case by simp
next
  case (Cons c cs)
  have "(p @ c) @ concat cs = concat (map frame_of ms)" using Cons.prems(3) by simp
  from prefix_split[OF this] obtain j q where jq: "j \<le> length ms"
      "p @ c = concat (map frame_of (take j ms)) @ q"
      "q @ concat cs = concat (map frame_of (drop j ms))"
      "q = [] \<or> (j < length ms \<and> (\<exists>k < length (frame_of (ms ! j)). q = take k (frame_of (ms ! j))))"
    by blast
  have wft: "\<forall>m\<in>set (take j ms). wellformed m" using Cons.prems(1) by (meson in_set_takeD)
  have wfd: "\<forall>m\<in>set (drop j ms). wellformed m" using Cons.prems(1) by (meson in_set_dropD)
  have clean1: "q = [] \<or> (\<exists>m k. wellformed m \<and> k < length (frame_of m) \<and> q = take k (frame_of m))"
    using jq(4) Cons.prems(1) by (metis nth_mem)
  have a: "addData \<lparr>buffer = p\<rparr> c = (Inr (take j ms), \<lparr>buffer = q\<rparr>)"
    using addData_loop_frames[OF wft clean1, of "[]"] jq(2) by (simp add: addData_def)
  have clean2: "q = [] \<or> (drop j ms \<noteq> [] \<and> (\<exists>k < length (frame_of (hd (drop j ms))). q = take k (frame_of (hd (drop j ms)))))"
    using jq(4) by (auto simp: hd_drop_conv_nth)
  have "feed \<lparr>buffer = q\<rparr> cs = (Inr (drop j ms), \<lparr>buffer = []\<rparr>)"
    using Cons.IH[OF wfd clean2 jq(3)] .
  with a show ?case by simp
qed

lemma encodeMessage_Inr:
  "encodeMessage T d = Inr fr \<longleftrightarrow>
   T \<le> MAX_SAFE_INTEGER \<and> length d \<le> MAX_SAFE_INTEGER
   \<and> fr = 0 # encode_low (length d) @ encode_low T @ d"
  by (auto simp: encodeMessage_def varint_encode_def encode_high_low)

section \<open>\<open>JSON.stringify\<close> is injective on connection states\<close>

lemma hex_digit_inj:
  assumes "a < 16" "b < 16" "hex_digit a = hex_digit b"
  shows "a = b"
proof -
  have "(of_char (hex_digit a) :: nat) = of_char (hex_digit b)" using assms(3) by simp
  then show ?thesis using assms(1,2)
    by (auto simp: hex_digit_def split: if_splits)
qed

lemma json_escape_hd: "\<exists>c0 r. json_escape c = c0 # r \<and> c0 \<noteq> dquote"
  by (auto simp: json_escape_def dquote_def backslash_def)

lemma json_escape_inj_app:
  assumes "json_escape c @ x = json_escape c' @ x'"
  shows "c = c' \<and> x = x'"
proof -
  have low: "\<And>a b :: char. (of_char a :: nat) < 32 \<Longrightarrow> (of_char b :: nat) < 32 \<Longrightarrow>
      hex_digit (of_char a div 16) = hex_digit (of_char b div 16) \<Longrightarrow>
      hex_digit (of_char a mod 16) = hex_digit (of_char b mod 16) \<Longrightarrow> a = b"
  proof -
    fix a b :: char
    assume h: "(of_char a :: nat) < 32" "(of_char b :: nat) < 32"
      "hex_digit (of_char a div 16) = hex_digit (of_char b div 16)"
      "hex_digit (of_char a mod 16) = hex_digit (of_char b mod 16)"
    have d: "(of_char a :: nat) div 16 = of_char b div 16"
      using h(1,2) by (intro hex_digit_inj[OF _ _ h(3)]) auto
    have m: "(of_char a :: nat) mod 16 = of_char b mod 16"
      by (intro hex_digit_inj[OF _ _ h(4)]) auto
    have "(of_char a :: nat) = of_char b" using d m by (metis div_mult_mod_eq)
    then show "a = b" by simp
  qed
  show ?thesis using assms low[of c c']
    by (auto simp: json_escape_def dquote_def backslash_def split: if_splits)
qed


lemma escaped_inj_app:
  "concat (map json_escape s) @ dquote # r = concat (map json_escape s') @ dquote # r'
   \<Longrightarrow> s = s' \<and> r = r'"
proof (induction s arbitrary: s')
  case Nil
  show ?case
  proof (cases s')
    case Nil
    with Nil.prems show ?thesis by simp
  next
    case (Cons c' t')
    obtain c0 r0 where "json_escape c' = c0 # r0" "c0 \<noteq> dquote"
      using json_escape_hd by blast
    with Nil.prems Cons show ?thesis by simp
  qed
next
  case (Cons c t)
  show ?case
  proof (cases s')
    case Nil
    obtain c0 r0 where "json_escape c = c0 # r0" "c0 \<noteq> dquote"
      using json_escape_hd by blast
    with Cons.prems Nil show ?thesis by simp
  next
    case (Cons c' t')
    have "json_escape c @ (concat (map json_escape t) @ dquote # r)
        = json_escape c' @ (concat (map json_escape t') @ dquote # r')"
      using Cons.prems Cons by simp
    from json_escape_inj_app[OF this] have cc: "c = c'"
      and rest: "concat (map json_escape t) @ dquote # r = concat (map json_escape t') @ dquote # r'"
      by simp_all
    from Cons.IH[OF rest] cc Cons show ?thesis by simp
  qed
qed

lemma json_quote_inj_app:
  "json_quote s @ r = json_quote s' @ r' \<Longrightarrow> s = s' \<and> r = r'"
  using escaped_inj_app[of s r s' r'] by (simp add: json_quote_def)

lemma digit_char_is_digit: "d < 10 \<Longrightarrow> is_digit (digit_char d)"
  by (simp add: digit_char_def)

lemma digit_char_val: "d < 10 \<Longrightarrow> (of_char (digit_char d) :: nat) - 48 = d"
  by (simp add: digit_char_def)

lemma string_of_nat_digits: "\<forall>c\<in>set (string_of_nat n). is_digit c"
proof (induction n rule: string_of_nat.induct)
  case (1 n)
  show ?case
  proof (cases "n < 10")
    case True
    then show ?thesis using digit_char_is_digit[of n]
      by (subst string_of_nat.simps) simp
  next
    case False
    then show ?thesis using 1 digit_char_is_digit[of "n mod 10"]
      by (subst string_of_nat.simps) auto
  qed
qed

lemma string_of_nat_value:
  "foldl (\<lambda>acc c. 10 * acc + ((of_char c :: nat) - 48)) 0 (string_of_nat n) = n"
proof (induction n rule: string_of_nat.induct)
  case (1 n)
  show ?case
  proof (cases "n < 10")
    case True
    then show ?thesis
      by (subst string_of_nat.simps) (simp add: digit_char_val)
  next
    case False
    then show ?thesis using 1
      by (subst string_of_nat.simps) (simp add: digit_char_val)
  qed
qed

lemma string_of_nat_inj: "string_of_nat a = string_of_nat b \<Longrightarrow> a = b"
  by (metis string_of_nat_value)

lemma string_of_nat_inj_app:
  assumes "string_of_nat a @ t # r = string_of_nat b @ t' # r'"
    and "\<not> is_digit t" and "\<not> is_digit t'"
  shows "a = b \<and> t # r = t' # r'"
proof -
  have "takeWhile is_digit (string_of_nat a @ t # r) = string_of_nat a"
    using string_of_nat_digits[of a] assms(2) by (simp add: takeWhile_append2)
  moreover have "takeWhile is_digit (string_of_nat b @ t' # r') = string_of_nat b"
    using string_of_nat_digits[of b] assms(3) by (simp add: takeWhile_append2)
  ultimately have e: "string_of_nat a = string_of_nat b" using assms(1) by simp
  then show ?thesis using assms(1) string_of_nat_inj by auto
qed



lemma json_field_hd:
  "json_field v @ r = c # t \<Longrightarrow>
   (case v of FBool b \<Rightarrow> c = (if b then CHR ''t'' else CHR ''f'')
            | FStr s \<Rightarrow> c = dquote
            | FVersion x y \<Rightarrow> c = CHR ''{'')"
  by (cases v) (auto simp: json_quote_def)

lemma json_bool_inj_app:
  "json_field (FBool b) @ r = json_field (FBool b') @ r' \<Longrightarrow> b = b' \<and> r = r'"
  by (cases b; cases b') simp_all

lemma json_version_shape:
  "json_field (FVersion x y) @ r =
   (''{'' @ json_quote ''major'' @ '':'') @
     (string_of_nat x @ CHR '','' # ((json_quote ''minor'' @ '':'') @ (string_of_nat y @ CHR ''}'' # r)))"
  by simp

lemma json_version_inj_app:
  assumes "json_field (FVersion x y) @ r = json_field (FVersion x' y') @ r'"
  shows "x = x' \<and> y = y' \<and> r = r'"
proof -
  let ?Q = "json_quote ''minor'' @ '':''"
  have 1: "string_of_nat x @ CHR '','' # (?Q @ (string_of_nat y @ CHR ''}'' # r))
         = string_of_nat x' @ CHR '','' # (?Q @ (string_of_nat y' @ CHR ''}'' # r'))"
    using assms unfolding json_version_shape by (simp only: same_append_eq)
  have x: "x = x'" and 2: "CHR '','' # (?Q @ (string_of_nat y @ CHR ''}'' # r))
         = CHR '','' # (?Q @ (string_of_nat y' @ CHR ''}'' # r'))"
    using string_of_nat_inj_app[OF 1] by simp_all
  from 2 have 3: "string_of_nat y @ CHR ''}'' # r = string_of_nat y' @ CHR ''}'' # r'"
    by (simp only: list.inject same_append_eq)
  have "y = y' \<and> CHR ''}'' # r = CHR ''}'' # r'"
    using string_of_nat_inj_app[OF 3] by simp
  with x show ?thesis by simp
qed

lemma json_field_inj_app:
  assumes "json_field v @ r = json_field v' @ r'"
  shows "v = v' \<and> r = r'"
proof -
  have "json_field v' @ r' \<noteq> []"
    by (cases v') (auto simp: json_quote_def)
  then obtain c t where ct: "json_field v' @ r' = c # t"
    by (cases "json_field v' @ r'") auto
  have a: "case v of FBool b \<Rightarrow> c = (if b then CHR ''t'' else CHR ''f'')
            | FStr s \<Rightarrow> c = dquote | FVersion x y \<Rightarrow> c = CHR ''{''"
    using json_field_hd[of v r c t] assms ct by simp
  have b: "case v' of FBool b \<Rightarrow> c = (if b then CHR ''t'' else CHR ''f'')
            | FStr s \<Rightarrow> c = dquote | FVersion x y \<Rightarrow> c = CHR ''{''"
    using json_field_hd[of v' r' c t] ct by simp
  show ?thesis
  proof (cases v)
    case (FBool b1)
    with a b obtain b2 where "v' = FBool b2"
      by (cases v') (auto simp: dquote_def split: if_splits)
    with FBool assms json_bool_inj_app show ?thesis by blast
  next
    case (FStr s1)
    with a b obtain s2 where v': "v' = FStr s2"
      by (cases v') (auto simp: dquote_def split: if_splits)
    have "json_quote s1 @ r = json_quote s2 @ r'" using assms FStr v' by simp
    from json_quote_inj_app[OF this] FStr v' show ?thesis by simp
  next
    case (FVersion x y)
    with a b obtain x' y' where v': "v' = FVersion x' y'"
      by (cases v') (auto simp: dquote_def split: if_splits)
    from json_version_inj_app[of x y r x' y' r'] assms FVersion v' show ?thesis by blast
  qed
qed


lemma json_member_inj_app:
  assumes "json_member kv @ r = json_member kv' @ r'"
  shows "kv = kv' \<and> r = r'"
proof -
  have "json_quote (fst kv) @ (CHR '':'' # json_field (snd kv) @ r)
      = json_quote (fst kv') @ (CHR '':'' # json_field (snd kv') @ r')"
    using assms by (simp add: json_member_def)
  from json_quote_inj_app[OF this]
  have k: "fst kv = fst kv'" and "json_field (snd kv) @ r = json_field (snd kv') @ r'"
    by simp_all
  from json_field_inj_app[OF this(2)] k show ?thesis by (simp add: prod_eq_iff)
qed

lemma json_member_hd: "\<exists>t. json_member kv = dquote # t"
  by (simp add: json_member_def json_quote_def)

lemma json_members_Cons:
  "json_members (kv # rest) @ r =
   json_member kv @ (if rest = [] then r else CHR '','' # json_members rest @ r)"
  by (cases rest) simp_all

lemma json_members_inj_app:
  "json_members st @ CHR ''}'' # r = json_members st' @ CHR ''}'' # r'
   \<Longrightarrow> st = st' \<and> r = r'"
proof (induction st arbitrary: st')
  case Nil
  show ?case
  proof (cases st')
    case Nil
    with Nil.prems show ?thesis by simp
  next
    case (Cons kv' rest')
    obtain t where "json_member kv' = dquote # t" using json_member_hd by blast
    with Nil.prems Cons show ?thesis
      by (simp only: json_members_Cons) (simp add: dquote_def)
  qed
next
  case (Cons kv rest)
  show ?case
  proof (cases st')
    case Nil
    obtain t where "json_member kv = dquote # t" using json_member_hd by blast
    with Cons.prems Nil show ?thesis
      by (simp only: json_members_Cons) (simp add: dquote_def)
  next
    case (Cons kv' rest')
    let ?X = "if rest = [] then CHR ''}'' # r else CHR '','' # json_members rest @ CHR ''}'' # r"
    let ?X' = "if rest' = [] then CHR ''}'' # r' else CHR '','' # json_members rest' @ CHR ''}'' # r'"
    have "json_member kv @ ?X = json_member kv' @ ?X'"
      using Cons.prems Cons by (simp only: json_members_Cons)
    from json_member_inj_app[OF this] have kv: "kv = kv'" and X: "?X = ?X'" by simp_all
    show ?thesis
    proof (cases "rest = []")
      case True
      with X have "rest' = []" by (auto split: if_splits)
      with True X kv Cons show ?thesis by simp
    next
      case False
      with X have ne: "rest' \<noteq> []" by (auto split: if_splits)
      with False X have "json_members rest @ CHR ''}'' # r = json_members rest' @ CHR ''}'' # r'"
        by simp
      from Cons.IH[OF this] kv Cons show ?thesis by simp
    qed
  qed
qed

lemma JSON_stringify_inj: "JSON_stringify st = JSON_stringify st' \<longleftrightarrow> st = st'"
proof
  assume "JSON_stringify st = JSON_stringify st'"
  then have "json_members st @ CHR ''}'' # [] = json_members st' @ CHR ''}'' # []"
    by (simp add: JSON_stringify_def)
  from json_members_inj_app[OF this] show "st = st'" by simp
qed simp

lemma updateState_eq:
  "updateState this newState =
     (if spread (state this) newState = state this
      then this\<lparr>state := spread (state this) newState\<rparr>
      else emit (this\<lparr>state := spread (state this) newState\<rparr>)
             (EvStateChange (spread (state this) newState)))"
  by (simp add: updateState_def Let_def JSON_stringify_inj eq_commute)

section \<open>The frame codec\<close>

text \<open>
  C1. Frame round trip: for every message type \<open>T\<close> that \<open>varint.encode\<close> accepts and
  every payload of at most 1 MiB, \<open>encodeMessage\<close> returns a frame, and a fresh handler
  given that frame in one \<open>addData\<close> call returns exactly the one message \<open>(T, payload)\<close>
  and is left with an empty buffer.
\<close>

theorem frame_round_trip:
  assumes "length payload \<le> MAX_MESSAGE_SIZE" and "T \<le> MAX_SAFE_INTEGER"
  shows "\<exists>frame. encodeMessage T payload = Inr frame
           \<and> addData new_ProtocolHandler frame
               = (Inr [\<lparr>type = T, data = payload\<rparr>], \<lparr>buffer = []\<rparr>)"
proof -
  let ?m = "\<lparr>type = T, data = payload\<rparr>"
  have enc: "encodeMessage T payload = Inr (frame_of ?m)"
    using assms by (simp add: encodeMessage_Inr max_size_safe)
  have wf: "\<forall>m\<in>set [?m]. wellformed m" using assms by simp
  have "addData_loop \<lparr>buffer = concat (map frame_of [?m]) @ []\<rparr> [] = (Inr ([] @ [?m]), \<lparr>buffer = []\<rparr>)"
    by (rule addData_loop_frames[OF wf]) simp
  then have "addData new_ProtocolHandler (frame_of ?m) = (Inr [?m], \<lparr>buffer = []\<rparr>)"
    by (simp add: addData_def new_ProtocolHandler_def)
  with enc show ?thesis by blast
qed

theorem frame_round_trip_witness:
  "length ([] :: Buffer) \<le> MAX_MESSAGE_SIZE \<and> (7 :: nat) \<le> MAX_SAFE_INTEGER
   \<and> encodeMessage 7 [] = Inr [0x00, 0x00, 0x07]
   \<and> (\<exists>frame. encodeMessage 7 [] = Inr frame
           \<and> addData new_ProtocolHandler frame
               = (Inr [\<lparr>type = 7, data = []\<rparr>], \<lparr>buffer = []\<rparr>))"
proof -
  have h1: "length ([] :: Buffer) \<le> MAX_MESSAGE_SIZE" by simp
  have h2: "(7 :: nat) \<le> MAX_SAFE_INTEGER" by (simp add: MAX_SAFE_INTEGER_def)
  have e: "encodeMessage 7 [] = Inr [0x00, 0x00, 0x07]"
    by (simp add: encodeMessage_Inr MAX_SAFE_INTEGER_def encode_low_small)
  show ?thesis using frame_round_trip[OF h1 h2] h1 h2 e by simp
qed

text \<open>
  C2. Streaming equivalence: when a stream is the concatenation of the frames of
  messages with payloads of at most 1 MiB, then however it is cut into chunks, feeding
  the chunks one \<open>addData\<close> call at a time to a fresh handler yields, in concatenation,
  exactly those messages in order, and so does a single \<open>addData\<close> call on the whole
  stream; both leave the buffer empty.
\<close>

theorem streaming_equivalence:
  assumes "\<forall>m\<in>set ms. length (data m) \<le> MAX_MESSAGE_SIZE"
    and "list_all2 (\<lambda>m frame. encodeMessage (type m) (data m) = Inr frame) ms frames"
    and "concat chunks = concat frames"
  shows "feed new_ProtocolHandler chunks = (Inr ms, \<lparr>buffer = []\<rparr>)
       \<and> addData new_ProtocolHandler (concat frames) = (Inr ms, \<lparr>buffer = []\<rparr>)"
proof -
  have fr: "frames = map frame_of ms" using assms(2)
    by (induction ms frames rule: list_all2_induct) (auto simp: encodeMessage_Inr)
  have "\<forall>m\<in>set ms. type m \<le> MAX_SAFE_INTEGER" using assms(2)
    by (induction ms frames rule: list_all2_induct) (auto simp: encodeMessage_Inr)
  then have wf: "\<forall>m\<in>set ms. wellformed m" using assms(1) by blast
  have c: "[] @ concat chunks = concat (map frame_of ms)" using assms(3) fr by simp
  have 1: "feed \<lparr>buffer = []\<rparr> chunks = (Inr ms, \<lparr>buffer = []\<rparr>)"
    by (rule feed_frames[OF wf _ c]) simp
  have "addData_loop \<lparr>buffer = concat (map frame_of ms) @ []\<rparr> [] = (Inr ([] @ ms), \<lparr>buffer = []\<rparr>)"
    by (rule addData_loop_frames[OF wf]) simp
  then have 2: "addData \<lparr>buffer = []\<rparr> (concat frames) = (Inr ms, \<lparr>buffer = []\<rparr>)"
    by (simp add: addData_def fr)
  from 1 2 show ?thesis by (simp add: new_ProtocolHandler_def)
qed

lemma enc10: "encodeMessage 10 [0xDE, 0xAD] = Inr [0x00, 0x02, 0x0A, 0xDE, 0xAD]"
    by (simp add: encodeMessage_Inr MAX_SAFE_INTEGER_def encode_low_small)

theorem streaming_equivalence_witness:
  "feed new_ProtocolHandler [[0x00, 0x02, 0x0A], [0xDE], [0xAD]]
     = (Inr [\<lparr>type = 10, data = [0xDE, 0xAD]\<rparr>], \<lparr>buffer = []\<rparr>)
   \<and> addData new_ProtocolHandler [0x00, 0x02, 0x0A, 0xDE, 0xAD]
     = (Inr [\<lparr>type = 10, data = [0xDE, 0xAD]\<rparr>], \<lparr>buffer = []\<rparr>)"
proof -
  let ?ms = "[\<lparr>type = 10, data = [0xDE, 0xAD]\<rparr>]"
  let ?frames = "[[0x00, 0x02, 0x0A, 0xDE, 0xAD :: byte]]"
  have h1: "\<forall>m\<in>set ?ms. length (data m) \<le> MAX_MESSAGE_SIZE"
    by (simp add: MAX_MESSAGE_SIZE_def)
  have h2: "list_all2 (\<lambda>m frame. encodeMessage (type m) (data m) = Inr frame) ?ms ?frames"
    by (simp add: enc10)
  have h3: "concat [[0x00, 0x02, 0x0A], [0xDE], [0xAD :: byte]] = concat ?frames" by simp
  show ?thesis using streaming_equivalence[OF h1 h2 h3] by simp
qed

section \<open>State updates\<close>

lemma map_of_set_key: "map_of (set_key st k v) = (map_of st)(k \<mapsto> v)"
  by (induction st) (auto simp: fun_eq_iff)

lemma keys_set_key:
  "map fst (set_key st k v) = (if k \<in> set (map fst st) then map fst st else map fst st @ [k])"
proof (induction st)
  case Nil
  then show ?case by simp
next
  case (Cons a st)
  then show ?case by (cases a) (auto simp: image_iff)
qed

lemma distinct_set_key: "distinct (map fst st) \<Longrightarrow> distinct (map fst (set_key st k v))"
  by (simp add: keys_set_key)

lemma distinct_spread: "distinct (map fst st) \<Longrightarrow> distinct (map fst (spread st p))"
  by (induction st p rule: spread.induct) (simp_all add: distinct_set_key)

lemma keys_spread: "\<exists>extra. map fst (spread st p) = map fst st @ extra"
proof (induction st p rule: spread.induct)
  case (1 a)
  then show ?case by simp
next
  case (2 a k v b)
  then obtain extra where "map fst (spread (set_key a k v) b) = map fst (set_key a k v) @ extra"
    by blast
  then show ?case by (auto simp: keys_set_key)
qed

lemma same_keys_same_map:
  "map fst xs = map fst ys \<Longrightarrow> distinct (map fst xs) \<Longrightarrow> map_of xs = map_of ys \<Longrightarrow> xs = ys"
proof (induction xs arbitrary: ys)
  case Nil
  then show ?case by simp
next
  case (Cons x xs)
  then obtain y ys' where ys: "ys = y # ys'" by (cases ys) auto
  have k: "fst x = fst y" "map fst xs = map fst ys'" using Cons.prems(1) ys by simp_all
  from Cons.prems(3)[unfolded ys] have meq: "map_of (x # xs) = map_of (y # ys')" .
  from fun_cong[OF meq, of "fst x"] have v: "snd x = snd y" using k by simp
  have "map_of xs = map_of ys'"
  proof
    fix a
    show "map_of xs a = map_of ys' a"
    proof (cases "a = fst x")
      case True
      then have "a \<notin> set (map fst xs)" "a \<notin> set (map fst ys')" using Cons.prems(2) k by auto
      then show ?thesis by (metis map_of_eq_None_iff set_map)
    next
      case False
      from fun_cong[OF meq, of a] show ?thesis using False k by simp
    qed
  qed
  from Cons.IH[OF k(2) _ this] Cons.prems(2) have "xs = ys'" by simp
  with k v ys show ?case by (simp add: prod_eq_iff)
qed

lemma spread_unchanged_iff:
  assumes "distinct (map fst st)"
  shows "spread st p = st \<longleftrightarrow> (\<forall>k. map_of (spread st p) k = map_of st k)"
proof
  assume h: "\<forall>k. map_of (spread st p) k = map_of st k"
  then have m: "map_of (spread st p) = map_of st" by (simp add: fun_eq_iff)
  obtain extra where e: "map fst (spread st p) = map fst st @ extra" using keys_spread by blast
  have d: "distinct (map fst (spread st p))" using assms by (rule distinct_spread)
  have "dom (map_of (spread st p)) = dom (map_of st)" using m by simp
  then have "set (map fst (spread st p)) = set (map fst st)"
    by (simp add: dom_map_of_conv_image_fst)
  then have sub: "set extra \<subseteq> set (map fst st)" using e by auto
  have dis: "set extra \<inter> set (map fst st) = {}" using d e by auto
  have "set extra = {}"
  proof (rule equals0I)
    fix x assume "x \<in> set extra"
    with sub dis show False by blast
  qed
  then have "extra = []" by simp
  with e have "map fst (spread st p) = map fst st" by simp
  from same_keys_same_map[OF this d m] show "spread st p = st" .
qed simp


section \<open>Varint errors and oversized frames\<close>

lemma read_loop_overlong:
  "(\<forall>i<k. buf ! (counter + i) \<ge> MSB) \<Longrightarrow> counter + k \<le> length buf \<Longrightarrow> shift + 7 * k > 49
   \<Longrightarrow> read_loop buf counter shift res = None"
proof (induction k arbitrary: counter shift res)
  case 0
  then show ?case by (subst read_loop.simps) simp
next
  case (Suc k)
  show ?case
  proof (cases "counter \<ge> length buf \<or> shift > 49")
    case True
    then show ?thesis by (subst read_loop.simps) simp
  next
    case False
    have b: "buf ! counter \<ge> MSB" using Suc.prems(1)[rule_format, of 0] by simp
    have "\<forall>i<k. buf ! (Suc counter + i) \<ge> MSB"
      using Suc.prems(1) by (metis Suc_less_eq add_Suc_shift)
    moreover have "Suc counter + k \<le> length buf" using Suc.prems(2) by simp
    moreover have "(shift + 7) + 7 * k > 49" using Suc.prems(3) by simp
    ultimately have "read_loop buf (Suc counter) (shift + 7) r = None" for r
      by (rule Suc.IH)
    with False b show ?thesis by (subst read_loop.simps) (simp add: Let_def)
  qed
qed

lemma varint_decode_overlong:
  assumes "length cs \<ge> 8" and "\<forall>b\<in>set cs. b \<ge> MSB"
  shows "varint_decode (pre @ cs @ later) (length pre) = None"
proof -
  have "\<forall>i<8. (pre @ cs @ later) ! (length pre + i) \<ge> MSB"
    using assms by (simp add: nth_append)
  moreover have "length pre + 8 \<le> length (pre @ cs @ later)" using assms(1) by simp
  ultimately have "read_loop (pre @ cs @ later) (length pre) 0 0 = None"
    by (rule read_loop_overlong) simp
  then show ?thesis by (simp add: varint_decode_def)
qed

lemma tryDecode_overlong_length:
  assumes "length cs \<ge> 8" and "\<forall>b\<in>set cs. b \<ge> MSB"
  shows "tryDecodeMessage \<lparr>buffer = 0 # cs @ later\<rparr> = (Inr None, \<lparr>buffer = 0 # cs @ later\<rparr>)"
proof -
  have "varint_decode (0 # cs @ later) (Suc 0) = None"
    using varint_decode_overlong[OF assms, of "[0]" later] by simp
  then show ?thesis by (simp add: tryDecodeMessage_def)
qed

lemma tryDecode_overlong_type:
  assumes "length cs \<ge> 8" and "\<forall>b\<in>set cs. b \<ge> MSB" and "n \<le> MAX_MESSAGE_SIZE"
  shows "tryDecodeMessage \<lparr>buffer = 0 # encode_low n @ cs @ later\<rparr>
         = (Inr None, \<lparr>buffer = 0 # encode_low n @ cs @ later\<rparr>)"
proof -
  have n8: "n \<le> MAX_SAFE_INTEGER" using assms(3) by (rule max_size_safe)
  have d1: "varint_decode (0 # encode_low n @ cs @ later) (Suc 0) = Some (n, length (encode_low n))"
    using varint_decode_encode[OF n8, of "[0]" "cs @ later"] by simp
  have d2: "varint_decode (0 # encode_low n @ cs @ later) (Suc (length (encode_low n))) = None"
    using varint_decode_overlong[OF assms(1,2), of "0 # encode_low n" later] by simp
  show ?thesis using assms(3) by (simp add: tryDecodeMessage_def d1 d2 Let_def)
qed

lemma handler_update [simp]: "(this :: ProtocolHandler)\<lparr>buffer := x\<rparr> = \<lparr>buffer = x\<rparr>"
  by (cases this) simp

lemma addData_loop_null:
  "tryDecodeMessage this = (Inr None, this') \<Longrightarrow> buffer this \<noteq> []
   \<Longrightarrow> addData_loop this acc = (Inr acc, this')"
  by (subst addData_loop.simps) simp

lemma tryDecode_too_large:
  assumes "length bad \<ge> 2" and "bad ! 0 = 0"
    and "varint_decode bad 1 = Some (L, n)" and "L > MAX_MESSAGE_SIZE"
  shows "tryDecodeMessage \<lparr>buffer = bad\<rparr>
         = (Inl (ProtocolError (''Message too large: '' @ Number_toString L @ '' bytes'')),
            \<lparr>buffer = bad\<rparr>)"
  using assms by (simp add: tryDecodeMessage_def)

lemma addData_loop_fault:
  assumes "\<forall>m\<in>set ms. wellformed m"
    and "tryDecodeMessage \<lparr>buffer = bad\<rparr> = (Inl e, p)" and "bad \<noteq> []"
  shows "addData_loop \<lparr>buffer = concat (map frame_of ms) @ bad\<rparr> acc = (Inl e, p)"
  using assms(1)
proof (induction ms arbitrary: acc)
  case Nil
  show ?case using assms(2,3) by (subst addData_loop.simps) simp
next
  case (Cons m ms)
  have wf: "wellformed m" using Cons.prems by simp
  have meq: "\<lparr>type = type m, data = data m\<rparr> = m" by simp
  have "tryDecodeMessage \<lparr>buffer = frame_of m @ concat (map frame_of ms) @ bad\<rparr>
        = (Inr (Some m), \<lparr>buffer = concat (map frame_of ms) @ bad\<rparr>)"
    using tryDecode_frame[of "type m" "data m" "concat (map frame_of ms) @ bad"] wf
    unfolding meq by simp
  moreover have "addData_loop \<lparr>buffer = concat (map frame_of ms) @ bad\<rparr> (acc @ [m]) = (Inl e, p)"
    using Cons.IH[of "acc @ [m]"] Cons.prems by simp
  ultimately show ?case
    by (subst addData_loop.simps) simp
qed

section \<open>The connection\<close>

lemma emitted_cleanup [simp]: "emitted (cleanup c) = emitted c"
  by (simp add: cleanup_def stopPingTimer_def stopPingTimeoutTimer_def Let_def)

lemma state_cleanup [simp]: "state (cleanup c) = state c"
  by (simp add: cleanup_def stopPingTimer_def stopPingTimeoutTimer_def Let_def)

lemma socket_cleanup [simp]: "socket (cleanup c) = False"
  by (simp add: cleanup_def stopPingTimer_def stopPingTimeoutTimer_def Let_def)

lemma written_cleanup [simp]: "written (cleanup c) = written c"
  by (simp add: cleanup_def stopPingTimer_def stopPingTimeoutTimer_def Let_def)

lemma buffer_cleanup [simp]: "buffer (protocol (cleanup c)) = []"
  by (simp add: cleanup_def stopPingTimer_def stopPingTimeoutTimer_def Let_def clearBuffer_def)

lemma updateState_fields [simp]:
  "socket (updateState c p) = socket c"
  "written (updateState c p) = written c"
  "protocol (updateState c p) = protocol c"
  "state (updateState c p) = spread (state c) p"
  by (simp_all add: updateState_eq emit_def)

lemma emitted_updateState:
  "emitted (updateState c p) =
     emitted c @ (if spread (state c) p = state c then [] else [EvStateChange (spread (state c) p)])"
  by (simp add: updateState_eq emit_def)

lemma disconnect_effect:
  "socket (disconnect c) = False"
  "written (disconnect c) = written c"
  "buffer (protocol (disconnect c)) = []"
  "connected (state (disconnect c)) = False"
  "authenticated (state (disconnect c)) = False"
  "emitted (disconnect c) =
     emitted c @
     (if spread (state c) [(''connected'', FBool False), (''authenticated'', FBool False)] = state c
      then [] else [EvStateChange (spread (state c)
                      [(''connected'', FBool False), (''authenticated'', FBool False)])])
     @ [EvDisconnect]"
  unfolding disconnect_def Let_def
  by (simp_all add: emit_def emitted_updateState connected_def authenticated_def map_of_set_key)


lemma established:
  "snd (establishConnection (new_Connection r) TcpConnect) =
     \<lparr> socket = True, written = [], protocol = \<lparr>buffer = []\<rparr>,
       state = [(''connected'', FBool True), (''authenticated'', FBool False)],
       reconnect = r, reconnectTimer = False, pingTimer = True, pingTimeoutTimer = False,
       isReconnecting = False, isDestroyed = False, expectedDisconnect = False,
       hasDeepSleep = False,
       emitted = [EvStateChange [(''connected'', FBool True), (''authenticated'', FBool False)],
                  EvConnect] \<rparr>"
  by (simp add: establishConnection_def new_Connection_def cleanup_def stopPingTimer_def
        stopPingTimeoutTimer_def Let_def clearBuffer_def new_ProtocolHandler_def initial_state_def
        updateState_eq emit_def startPingTimer_def)

text \<open>
  C3. An over-long varint is not treated as fatal. When the bytes buffered so far and
  the new chunk begin with the preamble and a length varint of ten or later bytes that
  all carry the continuation bit (or with a length within the limit and such a type
  varint), \<open>varint.decode\<close> throws \<open>RangeError\<close>, the \<open>catch\<close> commented "Not enough bytes"
  returns \<open>null\<close>, and \<open>addData\<close> returns no message and no fault, keeping every byte.
  The \<open>data\<close> listener emits nothing and the connection stays as it is. As the same
  holds again for every later chunk, whatever it contains, no frame is decoded any later
  and the buffer only grows.
\<close>

theorem malformed_varint_wedges_decoder:
  assumes "length cs \<ge> 10" and "\<forall>b\<in>set cs. b \<ge> MSB" and "n \<le> MAX_MESSAGE_SIZE"
    and "buffer (protocol c) @ dat = 0 # cs @ later
         \<or> buffer (protocol c) @ dat = 0 # encode_low n @ cs @ later"
  shows "addData (protocol c) dat = (Inr [], \<lparr>buffer = buffer (protocol c) @ dat\<rparr>)
       \<and> on_data c dat = c\<lparr>protocol := \<lparr>buffer = buffer (protocol c) @ dat\<rparr>\<rparr>
       \<and> emitted (on_data c dat) = emitted c
       \<and> state (on_data c dat) = state c"
proof -
  have len: "length cs \<ge> 8" using assms(1) by simp
  have t: "tryDecodeMessage \<lparr>buffer = buffer (protocol c) @ dat\<rparr>
           = (Inr None, \<lparr>buffer = buffer (protocol c) @ dat\<rparr>)"
    using assms(4) tryDecode_overlong_length[OF len assms(2), of later]
      tryDecode_overlong_type[OF len assms(2,3), of later]
    by auto
  have ne: "buffer (protocol c) @ dat \<noteq> []" using assms(4) by auto
  have a: "addData (protocol c) dat = (Inr [], \<lparr>buffer = buffer (protocol c) @ dat\<rparr>)"
    using addData_loop_null[OF t, of "[]"] ne by (simp add: addData_def)
  then have o: "on_data c dat = c\<lparr>protocol := \<lparr>buffer = buffer (protocol c) @ dat\<rparr>\<rparr>"
    by (simp add: on_data_def)
  from a o show ?thesis by simp
qed

theorem malformed_varint_wedges_decoder_witness:
  "(0xFF :: byte) \<ge> MSB
   \<and> addData new_ProtocolHandler (0x00 # replicate 10 0xFF @ [0x00, 0x00, 0x07])
       = (Inr [], \<lparr>buffer = 0x00 # replicate 10 0xFF @ [0x00, 0x00, 0x07]\<rparr>)
   \<and> emitted (on_data (snd (establishConnection (new_Connection True) TcpConnect))
                (0x00 # replicate 10 0xFF @ [0x00, 0x00, 0x07]))
       = [EvStateChange [(''connected'', FBool True), (''authenticated'', FBool False)], EvConnect]
   \<and> connected (state (on_data (snd (establishConnection (new_Connection True) TcpConnect))
                (0x00 # replicate 10 0xFF @ [0x00, 0x00, 0x07])))"
proof -
  let ?c = "snd (establishConnection (new_Connection True) TcpConnect)"
  let ?cs = "replicate 10 (0xFF :: byte)"
  let ?later = "[0x00, 0x00, 0x07 :: byte]"
  have h1: "length ?cs \<ge> 10" by simp
  have h2: "\<forall>b\<in>set ?cs. b \<ge> MSB" by (simp add: MSB_def)
  have h3: "(0 :: nat) \<le> MAX_MESSAGE_SIZE" by simp
  have h4: "buffer (protocol ?c) @ (0 # ?cs @ ?later) = 0 # ?cs @ ?later
         \<or> buffer (protocol ?c) @ (0 # ?cs @ ?later) = 0 # encode_low 0 @ ?cs @ ?later"
    by (simp add: established)
  have m: "(0xFF :: byte) \<ge> MSB" by (simp add: MSB_def)
  have b: "buffer (protocol ?c) = []" "protocol ?c = new_ProtocolHandler"
    by (simp_all add: established new_ProtocolHandler_def)
  from malformed_varint_wedges_decoder[OF h1 h2 h3 h4] m
  show ?thesis unfolding b(1) by (simp add: b(2)[symmetric] established connected_def)
qed

lemma oversized_frame_fault:
  fixes ms :: "DecodedMessage list"
  assumes "\<forall>m\<in>set ms. length (data m) \<le> MAX_MESSAGE_SIZE"
    and "list_all2 (\<lambda>m frame. encodeMessage (type m) (data m) = Inr frame) ms frames"
    and "buffer (protocol c) @ dat = concat frames @ bad"
    and "length bad \<ge> 2" and "bad ! 0 = 0x00"
    and "varint_decode bad 1 = Some (L, n)" and "L > MAX_MESSAGE_SIZE"
  shows "addData (protocol c) dat
           = (Inl (ProtocolError (''Message too large: '' @ Number_toString L @ '' bytes'')),
              \<lparr>buffer = bad\<rparr>)
       \<and> emitted (on_data c dat) =
           emitted c
           @ [EvError (ProtocolError (''Message too large: '' @ Number_toString L @ '' bytes''))]
           @ (if spread (state c) [(''connected'', FBool False), (''authenticated'', FBool False)]
                 = state c
              then []
              else [EvStateChange (spread (state c)
                      [(''connected'', FBool False), (''authenticated'', FBool False)])])
           @ [EvDisconnect]
       \<and> \<not> socket (on_data c dat)
       \<and> \<not> connected (state (on_data c dat))
       \<and> buffer (protocol (on_data c dat)) = []"
proof -
  let ?err = "ProtocolError (''Message too large: '' @ Number_toString L @ '' bytes'')"
  have fr: "frames = map frame_of ms" using assms(2)
    by (induction ms frames rule: list_all2_induct) (auto simp: encodeMessage_Inr)
  have "\<forall>m\<in>set ms. type m \<le> MAX_SAFE_INTEGER" using assms(2)
    by (induction ms frames rule: list_all2_induct) (auto simp: encodeMessage_Inr)
  then have wf: "\<forall>m\<in>set ms. wellformed m" using assms(1) by blast
  have bad: "tryDecodeMessage \<lparr>buffer = bad\<rparr> = (Inl ?err, \<lparr>buffer = bad\<rparr>)"
    using assms(4-7) by (rule tryDecode_too_large)
  have ne: "bad \<noteq> []" using assms(4) by auto
  have a: "addData (protocol c) dat = (Inl ?err, \<lparr>buffer = bad\<rparr>)"
    using addData_loop_fault[OF wf bad ne, of "[]"] assms(3) fr by (simp add: addData_def)
  have o: "on_data c dat = disconnect (emit (c\<lparr>protocol := \<lparr>buffer = bad\<rparr>\<rparr>) (EvError ?err))"
    by (simp add: on_data_def a on_error_caught_def)
  show ?thesis unfolding o using a
    by (simp add: disconnect_effect emit_def)
qed

text \<open>
  C5. A frame header can declare a payload length above 1 MiB without any fault being
  raised. The header \<open>00 80 80 80 80 80 80 80 80 01\<close> declares the length \<open>2 ^ 56\<close> in a
  nine-byte varint: \<open>varint.decode\<close> throws at the ninth byte, the \<open>catch\<close> returns \<open>null\<close>,
  and \<open>addData\<close> returns no message and no fault. On a connected connection the \<open>data\<close>
  listener emits no \<open>error\<close> and no \<open>disconnect\<close>, and the connection stays connected with
  the ten bytes in its buffer. (Where the length varint has at most eight bytes and its
  value is above 1 MiB, the fault is raised and the connection disconnects: that is
  \<open>oversized_frame_fault\<close>.)
\<close>

theorem oversized_length_in_nine_bytes_raises_no_fault:
  "varint_decode [0x00, 0x80, 0x80, 0x80, 0x80, 0x80, 0x80, 0x80, 0x80, 0x01] 1 = None
   \<and> addData new_ProtocolHandler [0x00, 0x80, 0x80, 0x80, 0x80, 0x80, 0x80, 0x80, 0x80, 0x01]
       = (Inr [], \<lparr>buffer = [0x00, 0x80, 0x80, 0x80, 0x80, 0x80, 0x80, 0x80, 0x80, 0x01]\<rparr>)
   \<and> on_data (snd (establishConnection (new_Connection True) TcpConnect))
        [0x00, 0x80, 0x80, 0x80, 0x80, 0x80, 0x80, 0x80, 0x80, 0x01]
       = (snd (establishConnection (new_Connection True) TcpConnect))
           \<lparr>protocol := \<lparr>buffer = [0x00, 0x80, 0x80, 0x80, 0x80, 0x80, 0x80, 0x80, 0x80, 0x01]\<rparr>\<rparr>
   \<and> emitted (on_data (snd (establishConnection (new_Connection True) TcpConnect))
        [0x00, 0x80, 0x80, 0x80, 0x80, 0x80, 0x80, 0x80, 0x80, 0x01])
       = [EvStateChange [(''connected'', FBool True), (''authenticated'', FBool False)], EvConnect]
   \<and> connected (state (on_data (snd (establishConnection (new_Connection True) TcpConnect))
        [0x00, 0x80, 0x80, 0x80, 0x80, 0x80, 0x80, 0x80, 0x80, 0x01]))"
proof -
  let ?c = "snd (establishConnection (new_Connection True) TcpConnect)"
  let ?cs = "[0x80, 0x80, 0x80, 0x80, 0x80, 0x80, 0x80, 0x80 :: byte]"
  let ?hdr = "[0x00, 0x80, 0x80, 0x80, 0x80, 0x80, 0x80, 0x80, 0x80, 0x01 :: byte]"
  have len: "length ?cs \<ge> 8" by simp
  have cont: "\<forall>b\<in>set ?cs. b \<ge> MSB" by (simp add: MSB_def)
  have d: "varint_decode ?hdr 1 = None"
    using varint_decode_overlong[OF len cont, of "[0x00]" "[0x01]"] by simp
  have t: "tryDecodeMessage \<lparr>buffer = ?hdr\<rparr> = (Inr None, \<lparr>buffer = ?hdr\<rparr>)"
    using tryDecode_overlong_length[OF len cont, of "[0x01]"] by simp
  have a: "addData \<lparr>buffer = []\<rparr> ?hdr = (Inr [], \<lparr>buffer = ?hdr\<rparr>)"
    using addData_loop_null[OF t, of "[]"] by (simp add: addData_def)
  have o: "on_data ?c ?hdr = ?c\<lparr>protocol := \<lparr>buffer = ?hdr\<rparr>\<rparr>"
    by (simp add: on_data_def established a)
  show ?thesis
    unfolding o using d a by (simp add: new_ProtocolHandler_def established connected_def)
qed

text \<open>
  C4. \<open>sendMessage\<close> throws \<open>ConnectionError\<close> "Not connected", writing nothing, exactly
  when there is no socket or \<open>connected\<close> is false. With a socket and \<open>connected\<close> true
  it writes the encoded frame of any message type, whatever \<open>authenticated\<close> is.
\<close>

theorem sendMessage_checks_connected_only:
  "(\<not> socket c \<or> \<not> connected (state c)
      \<longrightarrow> sendMessage c ty dat = Inl (ConnectionError ''Not connected''))
   \<and> (socket c \<and> connected (state c) \<and> ty \<le> MAX_SAFE_INTEGER \<and> length dat \<le> MAX_SAFE_INTEGER
      \<longrightarrow> (\<exists>frame. encodeMessage ty dat = Inr frame
             \<and> sendMessage c ty dat = Inr (c\<lparr>written := written c @ [frame]\<rparr>)))"
  by (auto simp: sendMessage_def encodeMessage_def varint_encode_def)

theorem sendMessage_checks_connected_only_witness:
  "sendMessage (new_Connection True) SwitchCommandRequest [] = Inl (ConnectionError ''Not connected'')
   \<and> (\<exists>frame. encodeMessage HelloRequest [] = Inr frame
        \<and> sendMessage (snd (establishConnection (new_Connection True) TcpConnect)) HelloRequest []
            = Inr ((snd (establishConnection (new_Connection True) TcpConnect))
                     \<lparr>written := written (snd (establishConnection (new_Connection True) TcpConnect)) @ [frame]\<rparr>))"
proof -
  let ?c = "snd (establishConnection (new_Connection True) TcpConnect)"
  have a: "\<not> socket (new_Connection True)" by (simp add: new_Connection_def)
  have b: "socket ?c \<and> connected (state ?c) \<and> HelloRequest \<le> MAX_SAFE_INTEGER
           \<and> length ([] :: Buffer) \<le> MAX_SAFE_INTEGER"
    by (simp add: established connected_def HelloRequest_def MAX_SAFE_INTEGER_def)
  show ?thesis
    using sendMessage_checks_connected_only[of "new_Connection True" SwitchCommandRequest "[]"]
      sendMessage_checks_connected_only[of ?c HelloRequest "[]"] a b
    by blast
qed

theorem unauthenticated_send_counterexample:
  "\<not> authenticated (state (snd (establishConnection (new_Connection True) TcpConnect)))
   \<and> sendMessage (snd (establishConnection (new_Connection True) TcpConnect))
        SwitchCommandRequest []
       = Inr ((snd (establishConnection (new_Connection True) TcpConnect))
                \<lparr>written := [[0x00, 0x00, 0x21]]\<rparr>)"
proof -
  have enc: "encodeMessage SwitchCommandRequest [] = Inr [0x00, 0x00, 0x21]"
    by (simp add: SwitchCommandRequest_def encodeMessage_Inr MAX_SAFE_INTEGER_def encode_low_small)
  show ?thesis
    by (simp add: established authenticated_def connected_def sendMessage_def enc)
qed

lemma state_disconnect:
  "state (disconnect c)
     = spread (state c) [(''connected'', FBool False), (''authenticated'', FBool False)]"
  by (simp add: disconnect_def Let_def emit_def)

lemma handleDisconnect_effect:
  "state (handleDisconnect c)
     = spread (state c) [(''connected'', FBool False), (''authenticated'', FBool False)]"
  "emitted (handleDisconnect c) =
     emitted c @
     (if spread (state c) [(''connected'', FBool False), (''authenticated'', FBool False)] = state c
      then [] else [EvStateChange (spread (state c)
                      [(''connected'', FBool False), (''authenticated'', FBool False)])])
     @ (if connected (state c) then [EvDisconnect] else [])"
  by (simp_all add: handleDisconnect_def Let_def scheduleReconnect_def emit_def emitted_updateState)

lemma establishConnection_effect:
  "state (snd (establishConnection c TcpConnect))
     = spread (state c) [(''connected'', FBool True), (''authenticated'', FBool False)]"
  "emitted (snd (establishConnection c TcpConnect)) =
     emitted c @
     (if spread (state c) [(''connected'', FBool True), (''authenticated'', FBool False)] = state c
      then [] else [EvStateChange (spread (state c)
                      [(''connected'', FBool True), (''authenticated'', FBool False)])])
     @ [EvConnect]"
  by (simp_all add: establishConnection_def Let_def startPingTimer_def stopPingTimer_def
        stopPingTimeoutTimer_def emit_def emitted_updateState)

text \<open>
  C9. \<open>updateState\<close> is the only place where the connection state changes;
  \<open>setAuthenticated\<close>, \<open>setApiVersion\<close> and \<open>setServerInfo\<close> are calls of it, and the
  connect and disconnect transitions (\<open>establishConnection\<close>, \<open>disconnect\<close>,
  \<open>handleDisconnect\<close>) call it once. It stores the spread of the old state and the
  update, and it emits exactly one \<open>stateChange\<close> event, carrying the new state, when
  the new state differs from the old one at some key, and none when no key differs.
\<close>

theorem stateChange_iff_changed:
  assumes "distinct (map fst (state c))"
  shows "state (updateState c newState) = spread (state c) newState
       \<and> emitted (updateState c newState) =
           emitted c @
           (if \<exists>k. map_of (state (updateState c newState)) k \<noteq> map_of (state c) k
            then [EvStateChange (state (updateState c newState))] else [])
       \<and> setAuthenticated c a = updateState c [(''authenticated'', FBool a)]
       \<and> setApiVersion c major minor = updateState c [(''apiVersion'', FVersion major minor)]
       \<and> setServerInfo c info = updateState c [(''serverInfo'', FStr info)]
       \<and> emitted (snd (establishConnection c TcpConnect)) =
           emitted c @
           (if \<exists>k. map_of (state (snd (establishConnection c TcpConnect))) k \<noteq> map_of (state c) k
            then [EvStateChange (state (snd (establishConnection c TcpConnect)))] else [])
           @ [EvConnect]
       \<and> emitted (disconnect c) =
           emitted c @
           (if \<exists>k. map_of (state (disconnect c)) k \<noteq> map_of (state c) k
            then [EvStateChange (state (disconnect c))] else [])
           @ [EvDisconnect]
       \<and> emitted (handleDisconnect c) =
           emitted c @
           (if \<exists>k. map_of (state (handleDisconnect c)) k \<noteq> map_of (state c) k
            then [EvStateChange (state (handleDisconnect c))] else [])
           @ (if connected (state c) then [EvDisconnect] else [])"
proof -
  note iff = spread_unchanged_iff[OF assms]
  have 1: "state (updateState c newState) = spread (state c) newState" by simp
  have 2: "emitted (updateState c newState) =
           emitted c @
           (if \<exists>k. map_of (state (updateState c newState)) k \<noteq> map_of (state c) k
            then [EvStateChange (state (updateState c newState))] else [])"
    using iff[of newState] by (simp add: emitted_updateState)
  have 3: "emitted (snd (establishConnection c TcpConnect)) =
           emitted c @
           (if \<exists>k. map_of (state (snd (establishConnection c TcpConnect))) k \<noteq> map_of (state c) k
            then [EvStateChange (state (snd (establishConnection c TcpConnect)))] else [])
           @ [EvConnect]"
    using iff[of "[(''connected'', FBool True), (''authenticated'', FBool False)]"]
    unfolding establishConnection_effect by auto
  have 4: "emitted (disconnect c) =
           emitted c @
           (if \<exists>k. map_of (state (disconnect c)) k \<noteq> map_of (state c) k
            then [EvStateChange (state (disconnect c))] else [])
           @ [EvDisconnect]"
    using iff[of "[(''connected'', FBool False), (''authenticated'', FBool False)]"]
    unfolding state_disconnect disconnect_effect by auto
  have 5: "emitted (handleDisconnect c) =
           emitted c @
           (if \<exists>k. map_of (state (handleDisconnect c)) k \<noteq> map_of (state c) k
            then [EvStateChange (state (handleDisconnect c))] else [])
           @ (if connected (state c) then [EvDisconnect] else [])"
    using iff[of "[(''connected'', FBool False), (''authenticated'', FBool False)]"]
    unfolding handleDisconnect_effect by auto
  from 1 2 3 4 5 show ?thesis
    by (simp only: setAuthenticated_def setApiVersion_def setServerInfo_def simp_thms)
qed

theorem stateChange_iff_changed_witness:
  "distinct (map fst (state (new_Connection True)))
   \<and> emitted (setAuthenticated (new_Connection True) True)
       = [EvStateChange [(''connected'', FBool False), (''authenticated'', FBool True)]]
   \<and> emitted (setAuthenticated (new_Connection True) False) = []"
proof -
  let ?c = "new_Connection True"
  have h: "distinct (map fst (state ?c))" by (simp add: new_Connection_def initial_state_def)
  have st: "state ?c = [(''connected'', FBool False), (''authenticated'', FBool False)]"
    "emitted ?c = []"
    by (simp_all add: new_Connection_def initial_state_def)
  have ch: "\<exists>k. map_of (spread (state ?c) [(''authenticated'', FBool True)]) k \<noteq> map_of (state ?c) k"
    by (rule exI[of _ "''authenticated''"]) (simp add: st)
  have un: "\<not> (\<exists>k. map_of (spread (state ?c) [(''authenticated'', FBool False)]) k \<noteq> map_of (state ?c) k)"
    by (simp add: st)
  from stateChange_iff_changed[OF h, where newState = "[(''authenticated'', FBool True)]" and a = True]
  have 1: "emitted (setAuthenticated ?c True)
       = [EvStateChange [(''connected'', FBool False), (''authenticated'', FBool True)]]"
    using ch by (simp add: st)
  from stateChange_iff_changed[OF h, where newState = "[(''authenticated'', FBool False)]" and a = False]
  have 2: "emitted (setAuthenticated ?c False) = []"
    using un by (simp add: st)
  from h 1 2 show ?thesis by simp
qed

text \<open>
  C6. After one connect, two calls of \<open>disconnect\<close> in succession emit two
  \<open>disconnect\<close> events: the second call, on a connection that is already disconnected,
  emits one more.
\<close>

theorem disconnect_twice_emits_twice:
  "emitted (disconnect (disconnect (snd (establishConnection (new_Connection True) TcpConnect))))
   = [EvStateChange [(''connected'', FBool True), (''authenticated'', FBool False)],
      EvConnect,
      EvStateChange [(''connected'', FBool False), (''authenticated'', FBool False)],
      EvDisconnect,
      EvDisconnect]"
  by (simp add: disconnect_effect state_disconnect established)

text \<open>
  C7. On a connection with a socket and \<open>connected\<close> true, \<open>handleMessage\<close> answers a
  message of type \<open>PingRequest\<close> by writing the \<open>PingResponse\<close> frame \<open>00 00 08\<close> and
  changes nothing else: no event is emitted, so no \<open>message\<close> event reaches the client.
  The same holds for the \<open>data\<close> listener given the frame of a \<open>PingRequest\<close> on an empty
  buffer.
\<close>

theorem ping_request_answered:
  assumes "socket c" and "connected (state c)"
  shows "(type msg = PingRequest \<longrightarrow>
            handleMessage c msg = Inr (c\<lparr>written := written c @ [[0x00, 0x00, 0x08]]\<rparr>))
       \<and> (buffer (protocol c) = [] \<and> length d \<le> MAX_MESSAGE_SIZE \<longrightarrow>
            (\<exists>frame. encodeMessage PingRequest d = Inr frame
               \<and> on_data c frame = c\<lparr>written := written c @ [[0x00, 0x00, 0x08]]\<rparr>
               \<and> emitted (on_data c frame) = emitted c))"
proof -
  have enc: "encodeMessage PingResponse [] = Inr [0x00, 0x00, 0x08]"
    by (simp add: PingResponse_def encodeMessage_Inr MAX_SAFE_INTEGER_def encode_low_small)
  have hm: "handleMessage c m = Inr (c\<lparr>written := written c @ [[0x00, 0x00, 0x08]]\<rparr>)"
    if "type m = PingRequest" for m
    using that assms by (simp add: handleMessage_def sendMessage_def enc)
  have od: "\<exists>frame. encodeMessage PingRequest d = Inr frame
               \<and> on_data c frame = c\<lparr>written := written c @ [[0x00, 0x00, 0x08]]\<rparr>
               \<and> emitted (on_data c frame) = emitted c"
    if b: "buffer (protocol c) = []" and d: "length d \<le> MAX_MESSAGE_SIZE"
  proof -
    let ?m = "\<lparr>type = PingRequest, data = d\<rparr>"
    have "PingRequest \<le> MAX_SAFE_INTEGER" by (simp add: PingRequest_def MAX_SAFE_INTEGER_def)
    then have e: "encodeMessage PingRequest d = Inr (frame_of ?m)"
      using d by (simp add: encodeMessage_Inr max_size_safe)
    have wf: "\<forall>m\<in>set [?m]. wellformed m"
      using d \<open>PingRequest \<le> MAX_SAFE_INTEGER\<close> by simp
    have "addData_loop \<lparr>buffer = concat (map frame_of [?m]) @ []\<rparr> [] = (Inr ([] @ [?m]), \<lparr>buffer = []\<rparr>)"
      by (rule addData_loop_frames[OF wf]) simp
    then have a: "addData (protocol c) (0 # encode_low (length d) @ encode_low PingRequest @ d)
                   = (Inr [?m], \<lparr>buffer = []\<rparr>)"
      using b by (simp add: addData_def)
    have p: "c\<lparr>protocol := \<lparr>buffer = []\<rparr>\<rparr> = c" using b by (cases c) (simp add: ProtocolHandler.equality)
    have "on_data c (frame_of ?m) = c\<lparr>written := written c @ [[0x00, 0x00, 0x08]]\<rparr>"
      by (simp add: on_data_def a p hm)
    with e show ?thesis by simp
  qed
  from hm od show ?thesis by blast
qed

theorem ping_request_answered_witness:
  "socket (snd (establishConnection (new_Connection True) TcpConnect))
   \<and> connected (state (snd (establishConnection (new_Connection True) TcpConnect)))
   \<and> handleMessage (snd (establishConnection (new_Connection True) TcpConnect))
        \<lparr>type = PingRequest, data = []\<rparr>
      = Inr ((snd (establishConnection (new_Connection True) TcpConnect))
               \<lparr>written := [[0x00, 0x00, 0x08]]\<rparr>)"
proof -
  let ?c = "snd (establishConnection (new_Connection True) TcpConnect)"
  have h1: "socket ?c" by (simp add: established)
  have h2: "connected (state ?c)" by (simp add: established connected_def)
  show ?thesis
    using ping_request_answered[OF h1 h2, of "\<lparr>type = PingRequest, data = []\<rparr>" "[]"] h1 h2
    by (simp add: established)
qed

section \<open>Connecting\<close>

lemma establishConnection_result:
  "fst (establishConnection c tcp) = None \<longleftrightarrow> tcp = TcpConnect"
  by (cases tcp) (simp_all add: establishConnection_def Let_def)

lemma pRetry_3:
  "pRetry f 3 mn mx n s =
     (case f n s of
        (None, s1) \<Rightarrow> ((None, s1), n, [])
      | (Some e1, s1) \<Rightarrow>
         (case f (Suc n) s1 of
            (None, s2) \<Rightarrow> ((None, s2), Suc n, [retry_timeout mn mx (n - 1)])
          | (Some e2, s2) \<Rightarrow>
             (case f (Suc (Suc n)) s2 of
                (None, s3) \<Rightarrow> ((None, s3), Suc (Suc n),
                                 [retry_timeout mn mx (n - 1), retry_timeout mn mx n])
              | (Some e3, s3) \<Rightarrow>
                  (f (Suc (Suc (Suc n))) s3, Suc (Suc (Suc n)),
                   [retry_timeout mn mx (n - 1), retry_timeout mn mx n,
                    retry_timeout mn mx (Suc n)]))))"
  by (simp add: numeral_3_eq_3 split: prod.splits option.splits)


lemma establishConnection_None: "establishConnection c tcp = (None, c') \<Longrightarrow> tcp = TcpConnect"
  using establishConnection_result[of c tcp] by simp

lemma establishConnection_Some: "establishConnection c tcp = (Some e, c') \<Longrightarrow> tcp \<noteq> TcpConnect"
  using establishConnection_result[of c tcp] by auto

text \<open>
  C8. On a connection that is neither destroyed nor connected: with the reconnect
  policy disabled \<open>connect\<close> calls \<open>establishConnection\<close> exactly once and waits never;
  with the policy enabled it calls it at least once and at most four times (the first
  attempt and up to three retries), each further attempt following a failed one, it
  waits 1000, 2000 and 4000 ms before the retries, and it stops before the fourth
  attempt only at an attempt where the network connects. It resolves exactly when its
  last attempt connects.
\<close>

theorem connect_attempts:
  assumes "\<not> isDestroyed c" and "\<not> connected (state c)"
  shows "(\<not> reconnect c \<longrightarrow>
            attempts (connect c env) = 1 \<and> waits (connect c env) = [])
       \<and> (reconnect c \<longrightarrow>
            1 \<le> attempts (connect c env) \<and> attempts (connect c env) \<le> 4
          \<and> waits (connect c env) = take (attempts (connect c env) - 1) [1000, 2000, 4000]
          \<and> (2 \<le> attempts (connect c env) \<longrightarrow> env 1 \<noteq> TcpConnect)
          \<and> (3 \<le> attempts (connect c env) \<longrightarrow> env 2 \<noteq> TcpConnect)
          \<and> (4 \<le> attempts (connect c env) \<longrightarrow> env 3 \<noteq> TcpConnect)
          \<and> (attempts (connect c env) < 4 \<longrightarrow> env (attempts (connect c env)) = TcpConnect))
       \<and> (rejection (connect c env) = None \<longleftrightarrow> env (attempts (connect c env)) = TcpConnect)"
proof (cases "reconnect c")
  case False
  obtain r s where e: "establishConnection c (env 1) = (r, s)" by (cases "establishConnection c (env 1)")
  show ?thesis
    using False assms e establishConnection_None[of c "env 1"] establishConnection_Some[of c "env 1"]
    by (cases r) (auto simp: connect_def)
next
  case True
  obtain r1 s1 where e1: "establishConnection c (env 1) = (r1, s1)"
    by (cases "establishConnection c (env 1)")
  obtain r2 s2 where e2: "establishConnection s1 (env 2) = (r2, s2)"
    by (cases "establishConnection s1 (env 2)")
  obtain r3 s3 where e3: "establishConnection s2 (env 3) = (r3, s3)"
    by (cases "establishConnection s2 (env 3)")
  obtain r4 s4 where e4: "establishConnection s3 (env 4) = (r4, s4)"
    by (cases "establishConnection s3 (env 4)")
  have two: "Suc (Suc 0) = 2" and three: "Suc 2 = 3" and four: "Suc 3 = 4" by simp_all
  show ?thesis
    using True assms e1 e2 e3 e4
      establishConnection_None[of c "env 1"] establishConnection_Some[of c "env 1"]
      establishConnection_None[of s1 "env 2"] establishConnection_Some[of s1 "env 2"]
      establishConnection_None[of s2 "env 3"] establishConnection_Some[of s2 "env 3"]
      establishConnection_None[of s3 "env 4"] establishConnection_Some[of s3 "env 4"]
    by (cases r1; cases r2; cases r3; cases r4)
       (simp_all add: connect_def pRetry_3 retry_timeout_def two three four)
qed

theorem connect_attempts_witness:
  "\<not> isDestroyed (new_Connection True) \<and> \<not> connected (state (new_Connection True))
   \<and> attempts (connect (new_Connection True) (\<lambda>n. if n = 2 then TcpConnect else TcpTimeout)) = 2
   \<and> attempts (connect (new_Connection False) (\<lambda>n. TcpTimeout)) = 1"
proof -
  have h1: "\<not> isDestroyed (new_Connection r)" for r by (simp add: new_Connection_def)
  have h2: "\<not> connected (state (new_Connection r))" for r
    by (simp add: new_Connection_def initial_state_def connected_def)
  have r: "reconnect (new_Connection True)" "\<not> reconnect (new_Connection False)"
    by (simp_all add: new_Connection_def)
  let ?env = "\<lambda>n::nat. if n = 2 then TcpConnect else TcpTimeout"
  let ?k = "attempts (connect (new_Connection True) ?env)"
  from connect_attempts[OF h1 h2, of True ?env] r
  have a: "?k < 4 \<longrightarrow> ?env ?k = TcpConnect" "3 \<le> ?k \<longrightarrow> ?env 2 \<noteq> TcpConnect"
    by simp_all
  from a(2) have "?k < 3" by (simp add: not_le[symmetric])
  with a(1) have "?k = 2" by (simp split: if_splits)
  moreover from connect_attempts[OF h1 h2, of False "\<lambda>n. TcpTimeout"] r
  have "attempts (connect (new_Connection False) (\<lambda>n. TcpTimeout)) = 1" by simp
  ultimately show ?thesis using h1 h2 by simp
qed

theorem four_attempts_counterexample:
  "reconnect (new_Connection True)
   \<and> attempts (connect (new_Connection True) (\<lambda>n. TcpTimeout)) = 4
   \<and> waits (connect (new_Connection True) (\<lambda>n. TcpTimeout)) = [1000, 2000, 4000]"
  by (simp add: connect_def pRetry_3 retry_timeout_def establishConnection_def Let_def
        new_Connection_def initial_state_def connected_def)

section \<open>The client\<close>

text \<open>
  C10. \<open>ESPHomeClient.encodeMessage\<close> never throws: it always returns a buffer, and the
  buffer is empty when the proto module fails to load, when the name has no message
  class with an encoder, and when the encoder throws. On a connected plain connection
  \<open>switchCommand\<close> and \<open>fanCommand\<close> then still write a frame, with an empty payload:
  \<open>00 00 21\<close> and \<open>00 00 1F\<close>.
\<close>

theorem client_encodeMessage_never_throws:
  "(\<exists>buf. ESPHomeClient_encodeMessage api ty dat = Inr buf)
   \<and> ((\<exists>e. api = Inl e) \<longrightarrow> ESPHomeClient_encodeMessage api ty dat = Inr [])
   \<and> ((\<exists>table. api = Inr table \<and> table ty = None)
        \<longrightarrow> ESPHomeClient_encodeMessage api ty dat = Inr [])
   \<and> ((\<exists>table cls e. api = Inr table \<and> table ty = Some cls \<and> cls dat = Inl e)
        \<longrightarrow> ESPHomeClient_encodeMessage api ty dat = Inr [])
   \<and> (socket c \<and> connected (state c)
        \<and> ESPHomeClient_encodeMessage api ''SwitchCommandRequest''
             [(''key'', JSNum key), (''state'', JSBool st)] = Inr []
        \<longrightarrow> switchCommand api c key st = Inr (c\<lparr>written := written c @ [[0x00, 0x00, 0x21]]\<rparr>))
   \<and> (socket c \<and> connected (state c)
        \<and> (\<forall>msg. ESPHomeClient_encodeMessage api ''FanCommandRequest'' msg = Inr [])
        \<longrightarrow> fanCommand api c key options = Inr (c\<lparr>written := written c @ [[0x00, 0x00, 0x1F]]\<rparr>))"
proof -
  have e33: "encodeMessage SwitchCommandRequest [] = Inr [0x00, 0x00, 0x21]"
    by (simp add: SwitchCommandRequest_def encodeMessage_Inr MAX_SAFE_INTEGER_def encode_low_small)
  have e31: "encodeMessage FanCommandRequest [] = Inr [0x00, 0x00, 0x1F]"
    by (simp add: FanCommandRequest_def encodeMessage_Inr MAX_SAFE_INTEGER_def encode_low_small)
  have 1: "\<exists>buf. ESPHomeClient_encodeMessage api ty dat = Inr buf"
    by (auto simp: ESPHomeClient_encodeMessage_def split: sum.splits option.splits)
  have 2: "(\<exists>e. api = Inl e) \<longrightarrow> ESPHomeClient_encodeMessage api ty dat = Inr []"
    by (auto simp: ESPHomeClient_encodeMessage_def)
  have 3: "(\<exists>table. api = Inr table \<and> table ty = None)
        \<longrightarrow> ESPHomeClient_encodeMessage api ty dat = Inr []"
    by (auto simp: ESPHomeClient_encodeMessage_def)
  have 4: "(\<exists>table cls e. api = Inr table \<and> table ty = Some cls \<and> cls dat = Inl e)
        \<longrightarrow> ESPHomeClient_encodeMessage api ty dat = Inr []"
    by (auto simp: ESPHomeClient_encodeMessage_def)
  have 5: "socket c \<and> connected (state c)
        \<and> ESPHomeClient_encodeMessage api ''SwitchCommandRequest''
             [(''key'', JSNum key), (''state'', JSBool st)] = Inr []
        \<longrightarrow> switchCommand api c key st = Inr (c\<lparr>written := written c @ [[0x00, 0x00, 0x21]]\<rparr>)"
    by (simp add: switchCommand_def sendMessage_def e33)
  have 6: "socket c \<and> connected (state c)
        \<and> (\<forall>msg. ESPHomeClient_encodeMessage api ''FanCommandRequest'' msg = Inr [])
        \<longrightarrow> fanCommand api c key options = Inr (c\<lparr>written := written c @ [[0x00, 0x00, 0x1F]]\<rparr>)"
    by (simp add: fanCommand_def sendMessage_def e31 Let_def)
  from 1 2 3 4 5 6 show ?thesis by blast
qed

theorem client_encodeMessage_never_throws_witness:
  "ESPHomeClient_encodeMessage (Inr (\<lambda>name. None)) ''SwitchCommandRequest''
      [(''key'', JSNum 1), (''state'', JSBool True)] = Inr []
   \<and> switchCommand (Inr (\<lambda>name. None))
        (snd (establishConnection (new_Connection True) TcpConnect)) 1 True
      = Inr ((snd (establishConnection (new_Connection True) TcpConnect))
               \<lparr>written := [[0x00, 0x00, 0x21]]\<rparr>)"
proof -
  let ?api = "Inr (\<lambda>name. None) :: proto_api"
  let ?c = "snd (establishConnection (new_Connection True) TcpConnect)"
  let ?msg = "[(''key'', JSNum 1), (''state'', JSBool True)]"
  have t: "\<exists>table. ?api = Inr table \<and> table ''SwitchCommandRequest'' = None" by simp
  have h: "socket ?c \<and> connected (state ?c)" by (simp add: established connected_def)
  note inst = client_encodeMessage_never_throws[where api = ?api and ty = "''SwitchCommandRequest''"
      and dat = ?msg and c = ?c and key = 1 and st = True]
  from inst t
  have e: "ESPHomeClient_encodeMessage ?api ''SwitchCommandRequest'' ?msg = Inr []" by blast
  from inst e h
  have "switchCommand ?api ?c 1 True = Inr (?c\<lparr>written := written ?c @ [[0x00, 0x00, 0x21]]\<rparr>)"
    by blast
  with e show ?thesis by (simp add: established)
qed

end
